theory Spec2Isabelle
  imports Complex_Main "HOL-Library.AList"
begin

section \<open>Haisa Focus: timer engine, persistent store, audio playlist, ad waterfall\<close>

text \<open>
  A shallow embedding of the TypeScript sources. The timer hook computes with times and
  durations (milliseconds from \<open>performance.now()\<close> and \<open>Date.now()\<close>): there a number is
  a real, finite and with exact arithmetic, and rounding is outside the model. At the
  persistent store a number is any JavaScript number, finite or not (type \<open>number\<close> below),
  since the validators and \<open>JSON.stringify\<close> tell them apart. In the playlist arithmetic the
  NaN of a remainder by zero is \<open>None\<close>.
\<close>

subsection \<open>Types (types/index.ts)\<close>

datatype TimerState = Idle | Running | Paused | Finished
datatype TimerMode = Stopwatch | Pomodoro
datatype PomodoroPhase = Work | Break

text \<open>
  \<open>TimerSnapshot\<close> and the hook's \<open>TimerInternalState\<close> declare the same six fields;
  TypeScript types are structural, so they are one record here. The type parameter is the
  type of the fields declared \<open>number\<close>: \<open>real\<close> in the hook, \<open>number\<close> at the store.
\<close>

record 'n TimerSnapshot =
  state :: TimerState
  mode :: TimerMode
  startTimestamp :: "'n option"
  pausedElapsed :: 'n
  pomodoroPhase :: PomodoroPhase
  pomodoroRemainingMs :: 'n

type_synonym TimerInternalState = "real TimerSnapshot"

record 'n SessionData =
  session_id :: string
  startTime :: 'n
  endTime :: 'n
  duration :: 'n
  session_mode :: TimerMode
  completed :: bool

subsection \<open>Timer engine (components/timer/useTimer.ts)\<close>

definition POMODORO_WORK_MS :: real where
  "POMODORO_WORK_MS = 25 * 60 * 1000"

definition POMODORO_BREAK_MS :: real where
  "POMODORO_BREAK_MS = 5 * 60 * 1000"

definition DEFAULT_STATE :: TimerInternalState where
  "DEFAULT_STATE =
     \<lparr>state = Idle, mode = Stopwatch, startTimestamp = None, pausedElapsed = 0,
      pomodoroPhase = Work, pomodoroRemainingMs = POMODORO_WORK_MS\<rparr>"

text \<open>
  \<open>calculateElapsed\<close> and \<open>calculateRemaining\<close> read \<open>performance.now()\<close>; the reading
  is the first argument.
\<close>

definition calculateElapsed :: "real \<Rightarrow> TimerInternalState \<Rightarrow> real" where
  "calculateElapsed now s =
     (if state s = Idle then 0
      else if state s = Paused \<or> state s = Finished then pausedElapsed s
      else (case (state s, startTimestamp s) of
              (Running, Some t) \<Rightarrow> pausedElapsed s + (now - t)
            | _ \<Rightarrow> pausedElapsed s))"

definition calculateRemaining :: "real \<Rightarrow> TimerInternalState \<Rightarrow> real" where
  "calculateRemaining now s =
     (if mode s \<noteq> Pomodoro then 0
      else if state s = Idle then
        (if pomodoroPhase s = Work then POMODORO_WORK_MS else POMODORO_BREAK_MS)
      else if state s = Paused \<or> state s = Finished then pomodoroRemainingMs s
      else (case (state s, startTimestamp s) of
              (Running, Some t) \<Rightarrow>
                (let elapsed = now - t in max 0 (pomodoroRemainingMs s - elapsed))
            | _ \<Rightarrow> pomodoroRemainingMs s))"

text \<open>
  The hook owns the internal state, the two displayed values and the \<open>sessionStartTimeRef\<close>
  ref. Its calls to the store and to the notification sender are returned, in order, as a
  list beside the new hook state; the store's side is modelled below. Each action takes the
  clock readings it makes: \<open>performance.now()\<close> (one argument per reading), \<open>Date.now()\<close>
  (\<open>wall\<close>) and the result of \<open>generateSessionId()\<close> (\<open>sid\<close>).
\<close>

datatype call =
    SaveTimerSnapshot "real TimerSnapshot"
  | ClearTimerSnapshot
  | SaveSession "real SessionData"
  | SendPomodoroWorkCompleteNotification
  | SendPomodoroBreakCompleteNotification

record Timer =
  internalState :: TimerInternalState
  elapsedMs :: real
  remainingMs :: real
  sessionStartTimeRef :: "real option"

definition useTimer :: Timer where
  "useTimer =
     \<lparr>internalState = DEFAULT_STATE, elapsedMs = 0, remainingMs = POMODORO_WORK_MS,
      sessionStartTimeRef = None\<rparr>"

definition persistState :: "TimerInternalState \<Rightarrow> call list" where
  "persistState newState =
     [SaveTimerSnapshot
        \<lparr>state = state newState, mode = mode newState, startTimestamp = startTimestamp newState,
         pausedElapsed = pausedElapsed newState, pomodoroPhase = pomodoroPhase newState,
         pomodoroRemainingMs = pomodoroRemainingMs newState\<rparr>]"

definition tick :: "real \<Rightarrow> real \<Rightarrow> real \<Rightarrow> string \<Rightarrow> Timer \<Rightarrow> Timer \<times> call list" where
  "tick now1 now2 wall sid h =
     (let currentState = internalState h in
      if state currentState = Running then
        (let newElapsed = calculateElapsed now1 currentState;
             h1 = h\<lparr>elapsedMs := newElapsed\<rparr>
         in if mode currentState = Pomodoro then
              (let newRemaining = calculateRemaining now2 currentState;
                   h2 = h1\<lparr>remainingMs := newRemaining\<rparr>
               in if newRemaining \<le> 0 then
                    (let nextPhase = (if pomodoroPhase currentState = Work then Break else Work);
                         nextRemainingMs =
                           (if nextPhase = Work then POMODORO_WORK_MS else POMODORO_BREAK_MS);
                         saved =
                           (case sessionStartTimeRef h of
                              None \<Rightarrow> []
                            | Some t0 \<Rightarrow>
                                (let phaseDuration =
                                       (if pomodoroPhase currentState = Work then POMODORO_WORK_MS
                                        else POMODORO_BREAK_MS)
                                 in [SaveSession
                                       \<lparr>session_id = sid, startTime = t0, endTime = wall,
                                        duration = phaseDuration, session_mode = Pomodoro,
                                        completed = True\<rparr>]));
                         notified =
                           (if pomodoroPhase currentState = Work
                            then [SendPomodoroWorkCompleteNotification]
                            else [SendPomodoroBreakCompleteNotification]);
                         newState =
                           currentState\<lparr>state := Finished, pausedElapsed := newElapsed,
                                         pomodoroPhase := nextPhase,
                                         pomodoroRemainingMs := nextRemainingMs,
                                         startTimestamp := None\<rparr>
                     in (h2\<lparr>internalState := newState\<rparr>,
                         saved @ notified @ persistState newState))
                  else (h2, []))
            else (h1, []))
      else (h, []))"

text \<open>
  The mount effect: \<open>savedSnapshot\<close> is what \<open>getTimerSnapshot()\<close> returned; \<open>currentTime\<close>,
  \<open>now1\<close> and \<open>now2\<close> are its three clock readings.
\<close>

definition restore ::
  "real \<Rightarrow> real \<Rightarrow> real \<Rightarrow> real TimerSnapshot option \<Rightarrow> Timer \<Rightarrow> Timer" where
  "restore currentTime now1 now2 savedSnapshot h =
     (case savedSnapshot of
        None \<Rightarrow> h
      | Some snap \<Rightarrow>
          (let restoredState =
                 \<lparr>state = state snap, mode = mode snap, startTimestamp = startTimestamp snap,
                  pausedElapsed = pausedElapsed snap, pomodoroPhase = pomodoroPhase snap,
                  pomodoroRemainingMs = pomodoroRemainingMs snap\<rparr>;
               restoredState =
                 (if state restoredState = Running \<and> startTimestamp restoredState \<noteq> None
                  then restoredState\<lparr>startTimestamp := Some currentTime\<rparr>
                  else restoredState)
           in h\<lparr>internalState := restoredState,
                elapsedMs := calculateElapsed now1 restoredState,
                remainingMs := calculateRemaining now2 restoredState\<rparr>))"

definition start :: "real \<Rightarrow> real \<Rightarrow> Timer \<Rightarrow> Timer \<times> call list" where
  "start now wall h =
     (let currentState = internalState h in
      if state currentState \<noteq> Idle \<and> state currentState \<noteq> Finished then (h, [])
      else
        (let newState =
               currentState\<lparr>state := Running, startTimestamp := Some now,
                 pausedElapsed :=
                   (if state currentState = Finished then pausedElapsed currentState else 0),
                 pomodoroRemainingMs :=
                   (if state currentState = Finished
                    then (if pomodoroPhase currentState = Work then POMODORO_WORK_MS
                          else POMODORO_BREAK_MS)
                    else pomodoroRemainingMs currentState)\<rparr>
         in (h\<lparr>internalState := newState, sessionStartTimeRef := Some wall\<rparr>,
             persistState newState)))"

definition pause :: "real \<Rightarrow> real \<Rightarrow> Timer \<Rightarrow> Timer \<times> call list" where
  "pause now1 now2 h =
     (let currentState = internalState h in
      if state currentState \<noteq> Running then (h, [])
      else
        (let currentElapsed = calculateElapsed now1 currentState;
             currentRemaining = calculateRemaining now2 currentState;
             newState =
               currentState\<lparr>state := Paused, startTimestamp := None,
                 pausedElapsed := currentElapsed, pomodoroRemainingMs := currentRemaining\<rparr>
         in (h\<lparr>internalState := newState, elapsedMs := currentElapsed,
               remainingMs := currentRemaining\<rparr>,
             persistState newState)))"

definition resume :: "real \<Rightarrow> Timer \<Rightarrow> Timer \<times> call list" where
  "resume now h =
     (let currentState = internalState h in
      if state currentState \<noteq> Paused then (h, [])
      else
        (let newState = currentState\<lparr>state := Running, startTimestamp := Some now\<rparr>
         in (h\<lparr>internalState := newState\<rparr>, persistState newState)))"

definition stop :: "real \<Rightarrow> real \<Rightarrow> string \<Rightarrow> Timer \<Rightarrow> Timer \<times> call list" where
  "stop now wall sid h =
     (let currentState = internalState h in
      if state currentState = Idle then (h, [])
      else
        (let finalElapsed = calculateElapsed now currentState;
             saved =
               (case sessionStartTimeRef h of
                  None \<Rightarrow> []
                | Some t0 \<Rightarrow>
                    if finalElapsed > 0 then
                      [SaveSession
                         \<lparr>session_id = sid, startTime = t0, endTime = wall,
                          duration = finalElapsed, session_mode = mode currentState,
                          completed = False\<rparr>]
                    else []);
             newState = DEFAULT_STATE\<lparr>mode := mode currentState\<rparr>
         in (h\<lparr>internalState := newState, sessionStartTimeRef := None, elapsedMs := 0,
               remainingMs := (if mode currentState = Pomodoro then POMODORO_WORK_MS else 0)\<rparr>,
             saved @ [ClearTimerSnapshot])))"

definition reset :: "Timer \<Rightarrow> Timer \<times> call list" where
  "reset h =
     (let currentState = internalState h;
          newState =
            DEFAULT_STATE\<lparr>mode := mode currentState,
              pomodoroRemainingMs :=
                (if mode currentState = Pomodoro then POMODORO_WORK_MS else 0)\<rparr>
      in (h\<lparr>internalState := newState, sessionStartTimeRef := None, elapsedMs := 0,
            remainingMs := (if mode currentState = Pomodoro then POMODORO_WORK_MS else 0)\<rparr>,
          [ClearTimerSnapshot]))"

definition setMode :: "TimerMode \<Rightarrow> Timer \<Rightarrow> Timer \<times> call list" where
  "setMode newMode h =
     (let currentState = internalState h in
      if state currentState \<noteq> Idle then (h, [])
      else
        (let newState =
               DEFAULT_STATE\<lparr>mode := newMode,
                 pomodoroRemainingMs := (if newMode = Pomodoro then POMODORO_WORK_MS else 0)\<rparr>
         in (h\<lparr>internalState := newState, elapsedMs := 0,
               remainingMs := (if newMode = Pomodoro then POMODORO_WORK_MS else 0)\<rparr>,
             persistState newState)))"


text \<open>The invariant of the data model: \<open>startTimestamp\<close> is non-null iff the state is running.\<close>

definition timestamp_iff_running :: "TimerInternalState \<Rightarrow> bool" where
  "timestamp_iff_running s = ((startTimestamp s \<noteq> None) = (state s = Running))"

text \<open>
  The hook states reachable from the initial one by the actions, the autonomous transition
  (\<open>tick\<close>) and the restoration of a snapshot that satisfies \<open>ok\<close>.
\<close>

inductive reachable :: "(real TimerSnapshot \<Rightarrow> bool) \<Rightarrow> Timer \<Rightarrow> bool" for ok where
  r_init: "reachable ok useTimer"
| r_restore: "reachable ok h \<Longrightarrow> ok snap \<Longrightarrow> reachable ok (restore currentTime now1 now2 (Some snap) h)"
| r_start: "reachable ok h \<Longrightarrow> reachable ok (fst (start now wall h))"
| r_pause: "reachable ok h \<Longrightarrow> reachable ok (fst (pause now1 now2 h))"
| r_resume: "reachable ok h \<Longrightarrow> reachable ok (fst (resume now h))"
| r_stop: "reachable ok h \<Longrightarrow> reachable ok (fst (stop now wall sid h))"
| r_reset: "reachable ok h \<Longrightarrow> reachable ok (fst (reset h))"
| r_setMode: "reachable ok h \<Longrightarrow> reachable ok (fst (setMode newMode h))"
| r_tick: "reachable ok h \<Longrightarrow> reachable ok (fst (tick now1 now2 wall sid h))"

subsection \<open>JavaScript values and the platform (JSON, localStorage)\<close>

text \<open>
  A JavaScript number at the store's boundary: a finite value, NaN or an infinity.
  \<open>typeof\<close> calls all of them \<open>'number'\<close>, \<open>JSON.parse\<close> yields \<open>Infinity\<close> for a literal
  such as \<open>1e999\<close>, and \<open>JSON.stringify\<close> writes the non-finite ones as \<open>null\<close>.
\<close>

datatype number = Finite real | NaN | Infinity | MinusInfinity

text \<open>JavaScript \<open>a + b\<close> on numbers (finite sums are exact here).\<close>

fun js_add :: "number \<Rightarrow> number \<Rightarrow> number" where
  "js_add (Finite a) (Finite b) = Finite (a + b)"
| "js_add NaN b = NaN"
| "js_add a NaN = NaN"
| "js_add Infinity MinusInfinity = NaN"
| "js_add MinusInfinity Infinity = NaN"
| "js_add Infinity b = Infinity"
| "js_add a Infinity = Infinity"
| "js_add MinusInfinity b = MinusInfinity"
| "js_add a MinusInfinity = MinusInfinity"

text \<open>
  What \<open>JSON.parse\<close> returns and \<open>JSON.stringify\<close> takes. An object is the list of its
  own properties in insertion order (a parsed object has each key once).
\<close>

datatype json =
    JNull
  | JBool bool
  | JNum number
  | JStr string
  | JArr "json list"
  | JObj "(string \<times> json) list"

datatype exn = SecurityError | QuotaExceededError | SyntaxError | TypeError

text \<open>
  The platform is a parameter: \<open>JSON_serialize\<close> is the text \<open>JSON.stringify\<close> produces for
  a value whose numbers are finite, \<open>JSON_parse\<close> is \<open>JSON.parse\<close> (it throws a
  \<open>SyntaxError\<close> on malformed text), and \<open>ToString\<close> is the string a number, an array or
  an object becomes when \<open>+\<close> concatenates it.
\<close>

record JSON =
  JSON_serialize :: "json \<Rightarrow> string"
  JSON_parse :: "string \<Rightarrow> exn + json"
  ToString :: "json \<Rightarrow> string"

text \<open>\<open>JSON.stringify\<close> writes a number that is not finite as \<open>null\<close>, at any depth.\<close>

primrec finite_or_null :: "json \<Rightarrow> json" where
  "finite_or_null JNull = JNull"
| "finite_or_null (JBool b) = JBool b"
| "finite_or_null (JNum n) = (case n of Finite r \<Rightarrow> JNum (Finite r) | _ \<Rightarrow> JNull)"
| "finite_or_null (JStr s) = JStr s"
| "finite_or_null (JArr xs) = JArr (map finite_or_null xs)"
| "finite_or_null (JObj kvs) = JObj (map (map_prod id finite_or_null) kvs)"

definition JSON_stringify :: "JSON \<Rightarrow> json \<Rightarrow> string" where
  "JSON_stringify J v = JSON_serialize J (finite_or_null v)"

text \<open>
  The browser's \<open>localStorage\<close>. Access may be blocked altogether (every call throws), and
  a write may be refused (quota); \<open>rejects\<close> says which writes are.
\<close>

record localStorage =
  blocked :: bool
  rejects :: "string \<Rightarrow> string \<Rightarrow> bool"
  items :: "string \<rightharpoonup> string"

definition getItem :: "localStorage \<Rightarrow> string \<Rightarrow> exn + string option" where
  "getItem ls k = (if blocked ls then Inl SecurityError else Inr (items ls k))"

definition setItem :: "localStorage \<Rightarrow> string \<Rightarrow> string \<Rightarrow> exn + localStorage" where
  "setItem ls k v =
     (if blocked ls then Inl SecurityError
      else if rejects ls k v then Inl QuotaExceededError
      else Inr (ls\<lparr>items := (items ls)(k \<mapsto> v)\<rparr>))"

definition removeItem :: "localStorage \<Rightarrow> string \<Rightarrow> exn + localStorage" where
  "removeItem ls k =
     (if blocked ls then Inl SecurityError else Inr (ls\<lparr>items := (items ls)(k := None)\<rparr>))"

text \<open>
  Property access \<open>data.key\<close> on a parsed value, for a key that names no member of a
  prototype (the validators' field names); \<open>None\<close> is \<open>undefined\<close>.
\<close>

fun get_prop :: "json \<Rightarrow> string \<Rightarrow> json option" where
  "get_prop (JObj kvs) k = map_of kvs k"
| "get_prop _ k = None"

text \<open>\<open>!data\<close> is false exactly for the truthy values.\<close>

fun truthy :: "json \<Rightarrow> bool" where
  "truthy JNull = False"
| "truthy (JBool b) = b"
| "truthy (JNum n) = (n \<noteq> Finite 0 \<and> n \<noteq> NaN)"
| "truthy (JStr s) = (s \<noteq> [])"
| "truthy (JArr xs) = True"
| "truthy (JObj kvs) = True"

text \<open>\<open>typeof data === 'object'\<close>: null, arrays and objects.\<close>

fun typeof_object :: "json \<Rightarrow> bool" where
  "typeof_object JNull = True"
| "typeof_object (JArr xs) = True"
| "typeof_object (JObj kvs) = True"
| "typeof_object _ = False"

fun typeof_number :: "json option \<Rightarrow> bool" where
  "typeof_number (Some (JNum n)) = True"
| "typeof_number _ = False"

fun typeof_string :: "json option \<Rightarrow> bool" where
  "typeof_string (Some (JStr s)) = True"
| "typeof_string _ = False"

fun typeof_boolean :: "json option \<Rightarrow> bool" where
  "typeof_boolean (Some (JBool b)) = True"
| "typeof_boolean _ = False"

fun Array_isArray :: "json option \<Rightarrow> bool" where
  "Array_isArray (Some (JArr xs)) = True"
| "Array_isArray _ = False"

text \<open>\<open>list.includes(v)\<close> for a list of strings.\<close>

fun js_includes :: "string list \<Rightarrow> json option \<Rightarrow> bool" where
  "js_includes xs (Some (JStr s)) = (s \<in> set xs)"
| "js_includes xs _ = False"

subsection \<open>Persistent store (lib/storage.ts)\<close>

definition TIMER_SNAPSHOT :: string where "TIMER_SNAPSHOT = ''haisa_timer_snapshot''"
definition DAILY_STATS :: string where "DAILY_STATS = ''haisa_daily_stats''"
definition LAST_SESSION :: string where "LAST_SESSION = ''haisa_last_session''"

definition isLocalStorageAvailable :: "localStorage \<Rightarrow> bool \<times> localStorage" where
  "isLocalStorageAvailable ls =
     (let test = ''__storage_test__'' in
      case setItem ls test test of
        Inl e \<Rightarrow> (False, ls)
      | Inr ls1 \<Rightarrow>
          (case removeItem ls1 test of
             Inl e \<Rightarrow> (False, ls1)
           | Inr ls2 \<Rightarrow> (True, ls2)))"

definition safeJsonParse :: "JSON \<Rightarrow> string option \<Rightarrow> json \<Rightarrow> json" where
  "safeJsonParse J text fallback =
     (case text of
        None \<Rightarrow> fallback
      | Some t \<Rightarrow>
          if t = [] then fallback
          else (case JSON_parse J t of Inl e \<Rightarrow> fallback | Inr d \<Rightarrow> d))"

definition isValidTimerSnapshot :: "json \<Rightarrow> bool" where
  "isValidTimerSnapshot data =
     (if \<not> truthy data \<or> \<not> typeof_object data then False
      else
        (let validStates = [''idle'', ''running'', ''paused'', ''finished''];
             validModes = [''stopwatch'', ''pomodoro''];
             validPhases = [''work'', ''break'']
         in js_includes validStates (get_prop data ''state'') \<and>
            js_includes validModes (get_prop data ''mode'') \<and>
            (get_prop data ''startTimestamp'' = Some JNull \<or> typeof_number (get_prop data ''startTimestamp'')) \<and>
            typeof_number (get_prop data ''pausedElapsed'') \<and>
            js_includes validPhases (get_prop data ''pomodoroPhase'') \<and>
            typeof_number (get_prop data ''pomodoroRemainingMs'')))"

definition isValidSessionData :: "json \<Rightarrow> bool" where
  "isValidSessionData data =
     (if \<not> truthy data \<or> \<not> typeof_object data then False
      else
        (let validModes = [''stopwatch'', ''pomodoro'']
         in typeof_string (get_prop data ''id'') \<and>
            typeof_number (get_prop data ''startTime'') \<and>
            typeof_number (get_prop data ''endTime'') \<and>
            typeof_number (get_prop data ''duration'') \<and>
            js_includes validModes (get_prop data ''mode'') \<and>
            typeof_boolean (get_prop data ''completed'')))"

definition isValidDailyStats :: "json \<Rightarrow> bool" where
  "isValidDailyStats data =
     (if \<not> truthy data \<or> \<not> typeof_object data then False
      else
        typeof_string (get_prop data ''date'') \<and>
        typeof_number (get_prop data ''totalFocusMs'') \<and>
        typeof_number (get_prop data ''sessionCount'') \<and>
        Array_isArray (get_prop data ''sessions''))"

text \<open>
  The typed values as the objects \<open>JSON.stringify\<close> receives, and the typed reading of a
  parsed object that a type guard (\<open>data is TimerSnapshot\<close>) licenses: the declared fields,
  read by name. At the store a field of type \<open>number\<close> holds any JavaScript number.
\<close>

fun TimerState_str :: "TimerState \<Rightarrow> string" where
  "TimerState_str Idle = ''idle''"
| "TimerState_str Running = ''running''"
| "TimerState_str Paused = ''paused''"
| "TimerState_str Finished = ''finished''"

fun TimerMode_str :: "TimerMode \<Rightarrow> string" where
  "TimerMode_str Stopwatch = ''stopwatch''"
| "TimerMode_str Pomodoro = ''pomodoro''"

fun PomodoroPhase_str :: "PomodoroPhase \<Rightarrow> string" where
  "PomodoroPhase_str Work = ''work''"
| "PomodoroPhase_str Break = ''break''"

definition TimerSnapshot_value :: "number TimerSnapshot \<Rightarrow> json" where
  "TimerSnapshot_value s =
     JObj [(''state'', JStr (TimerState_str (state s))),
           (''mode'', JStr (TimerMode_str (mode s))),
           (''startTimestamp'', (case startTimestamp s of None \<Rightarrow> JNull | Some t \<Rightarrow> JNum t)),
           (''pausedElapsed'', JNum (pausedElapsed s)),
           (''pomodoroPhase'', JStr (PomodoroPhase_str (pomodoroPhase s))),
           (''pomodoroRemainingMs'', JNum (pomodoroRemainingMs s))]"

definition SessionData_value :: "number SessionData \<Rightarrow> json" where
  "SessionData_value s =
     JObj [(''id'', JStr (session_id s)),
           (''startTime'', JNum (startTime s)),
           (''endTime'', JNum (endTime s)),
           (''duration'', JNum (duration s)),
           (''mode'', JStr (TimerMode_str (session_mode s))),
           (''completed'', JBool (completed s))]"

text \<open>
  The hook computes with finite numbers; \<open>stored_snapshot\<close> and \<open>stored_session\<close> are its
  values as the store receives them, and \<open>TimerSnapshot_obj\<close> is the object of a snapshot
  of the hook's.
\<close>

definition stored_snapshot :: "real TimerSnapshot \<Rightarrow> number TimerSnapshot" where
  "stored_snapshot s =
     \<lparr>state = state s, mode = mode s, startTimestamp = map_option Finite (startTimestamp s),
      pausedElapsed = Finite (pausedElapsed s), pomodoroPhase = pomodoroPhase s,
      pomodoroRemainingMs = Finite (pomodoroRemainingMs s)\<rparr>"

definition stored_session :: "real SessionData \<Rightarrow> number SessionData" where
  "stored_session s =
     \<lparr>session_id = session_id s, startTime = Finite (startTime s), endTime = Finite (endTime s),
      duration = Finite (duration s), session_mode = session_mode s, completed = completed s\<rparr>"

definition TimerSnapshot_obj :: "real TimerSnapshot \<Rightarrow> json" where
  "TimerSnapshot_obj s = TimerSnapshot_value (stored_snapshot s)"

fun as_TimerState :: "json option \<Rightarrow> TimerState option" where
  "as_TimerState (Some (JStr s)) =
     map_of [(''idle'', Idle), (''running'', Running), (''paused'', Paused), (''finished'', Finished)] s"
| "as_TimerState _ = None"

fun as_TimerMode :: "json option \<Rightarrow> TimerMode option" where
  "as_TimerMode (Some (JStr s)) = map_of [(''stopwatch'', Stopwatch), (''pomodoro'', Pomodoro)] s"
| "as_TimerMode _ = None"

fun as_PomodoroPhase :: "json option \<Rightarrow> PomodoroPhase option" where
  "as_PomodoroPhase (Some (JStr s)) = map_of [(''work'', Work), (''break'', Break)] s"
| "as_PomodoroPhase _ = None"

fun as_number :: "json option \<Rightarrow> number option" where
  "as_number (Some (JNum n)) = Some n"
| "as_number _ = None"

fun as_number_or_null :: "json option \<Rightarrow> number option option" where
  "as_number_or_null (Some (JNum n)) = Some (Some n)"
| "as_number_or_null (Some JNull) = Some None"
| "as_number_or_null _ = None"

fun as_string :: "json option \<Rightarrow> string option" where
  "as_string (Some (JStr s)) = Some s"
| "as_string _ = None"

fun as_boolean :: "json option \<Rightarrow> bool option" where
  "as_boolean (Some (JBool b)) = Some b"
| "as_boolean _ = None"

fun as_array :: "json option \<Rightarrow> json list option" where
  "as_array (Some (JArr xs)) = Some xs"
| "as_array _ = None"

definition as_TimerSnapshot :: "json \<Rightarrow> number TimerSnapshot option" where
  "as_TimerSnapshot data =
     (case (as_TimerState (get_prop data ''state''), as_TimerMode (get_prop data ''mode''),
            as_number_or_null (get_prop data ''startTimestamp''), as_number (get_prop data ''pausedElapsed''),
            as_PomodoroPhase (get_prop data ''pomodoroPhase''),
            as_number (get_prop data ''pomodoroRemainingMs'')) of
        (Some st, Some m, Some ts, Some pe, Some ph, Some r) \<Rightarrow>
          Some \<lparr>state = st, mode = m, startTimestamp = ts, pausedElapsed = pe,
                pomodoroPhase = ph, pomodoroRemainingMs = r\<rparr>
      | _ \<Rightarrow> None)"

definition as_SessionData :: "json \<Rightarrow> number SessionData option" where
  "as_SessionData data =
     (case (as_string (get_prop data ''id''), as_number (get_prop data ''startTime''),
            as_number (get_prop data ''endTime''), as_number (get_prop data ''duration''),
            as_TimerMode (get_prop data ''mode''), as_boolean (get_prop data ''completed'')) of
        (Some i, Some st, Some en, Some d, Some m, Some c) \<Rightarrow>
          Some \<lparr>session_id = i, startTime = st, endTime = en, duration = d,
                session_mode = m, completed = c\<rparr>
      | _ \<Rightarrow> None)"

text \<open>Timer snapshot functions. Every function returns the store it leaves behind.\<close>

definition clearTimerSnapshot :: "localStorage \<Rightarrow> localStorage" where
  "clearTimerSnapshot ls =
     (case isLocalStorageAvailable ls of
        (False, ls1) \<Rightarrow> ls1
      | (True, ls1) \<Rightarrow>
          (case removeItem ls1 TIMER_SNAPSHOT of Inl e \<Rightarrow> ls1 | Inr ls2 \<Rightarrow> ls2))"

definition saveTimerSnapshot :: "JSON \<Rightarrow> number TimerSnapshot \<Rightarrow> localStorage \<Rightarrow> localStorage" where
  "saveTimerSnapshot J snapshot ls =
     (case isLocalStorageAvailable ls of
        (False, ls1) \<Rightarrow> ls1
      | (True, ls1) \<Rightarrow>
          (case setItem ls1 TIMER_SNAPSHOT (JSON_stringify J (TimerSnapshot_value snapshot)) of
             Inl e \<Rightarrow> ls1
           | Inr ls2 \<Rightarrow> ls2))"

text \<open>
  \<open>getItem\<close> is called outside any \<open>try\<close>: an exception it raised would reach the caller,
  so the result is a sum.
\<close>

definition getTimerSnapshot ::
  "JSON \<Rightarrow> localStorage \<Rightarrow> exn + (number TimerSnapshot option \<times> localStorage)" where
  "getTimerSnapshot J ls =
     (case isLocalStorageAvailable ls of
        (False, ls1) \<Rightarrow> Inr (None, ls1)
      | (True, ls1) \<Rightarrow>
          (case getItem ls1 TIMER_SNAPSHOT of
             Inl e \<Rightarrow> Inl e
           | Inr text \<Rightarrow>
               (let data = safeJsonParse J text JNull in
                if truthy data \<and> isValidTimerSnapshot data then Inr (as_TimerSnapshot data, ls1)
                else Inr (None, clearTimerSnapshot ls1))))"

definition getLastSession ::
  "JSON \<Rightarrow> localStorage \<Rightarrow> exn + (number SessionData option \<times> localStorage)" where
  "getLastSession J ls =
     (case isLocalStorageAvailable ls of
        (False, ls1) \<Rightarrow> Inr (None, ls1)
      | (True, ls1) \<Rightarrow>
          (case getItem ls1 LAST_SESSION of
             Inl e \<Rightarrow> Inl e
           | Inr text \<Rightarrow>
               (let data = safeJsonParse J text JNull in
                if truthy data \<and> isValidSessionData data then Inr (as_SessionData data, ls1)
                else Inr (None, ls1))))"

text \<open>
  Daily statistics. \<open>getAllDailyStats\<close> builds a plain object \<open>stats = {}\<close>, so
  \<open>allStats[date]\<close> is JavaScript's property lookup: the object's own entries first, then
  its prototype chain. The chain ends in \<open>Object.prototype\<close>, whose members are functions,
  except the accessor \<open>__proto__\<close>: reading it gives the object's prototype, and assigning an
  object to it replaces the prototype instead of adding an entry. A stored key
  \<open>"__proto__"\<close> therefore makes its (validated) value the prototype of the record, and
  later lookups find that value's own properties, which nothing validated. The record is a
  list of own entries, each a validated object as parsed, and a prototype: \<open>None\<close> is
  \<open>Object.prototype\<close>.
\<close>

record stats_record =
  entries :: "(string \<times> json) list"
  proto :: "json option"

definition Object_prototype_members :: "string list" where
  "Object_prototype_members =
     [''constructor'', ''__defineGetter__'', ''__defineSetter__'', ''hasOwnProperty'',
      ''__lookupGetter__'', ''__lookupSetter__'', ''isPrototypeOf'', ''propertyIsEnumerable'',
      ''toString'', ''valueOf'', ''__proto__'', ''toLocaleString'']"

text \<open>
  What a lookup can give: nothing, a value as parsed, or an object of the runtime itself
  (a function of \<open>Object.prototype\<close>, or \<open>Object.prototype\<close>), which has no \<open>sessions\<close>.
  The runtime's objects are as the page loads them: a call that throws on one of them has
  first written \<open>totalFocusMs\<close> and \<open>sessionCount\<close> on it, which the model does not keep.
\<close>

datatype looked_up = Undefined | Json json | Runtime

definition lookup :: "stats_record \<Rightarrow> string \<Rightarrow> looked_up" where
  "lookup stats d =
     (case map_of (entries stats) d of
        Some v \<Rightarrow> Json v
      | None \<Rightarrow>
          (case (case proto stats of None \<Rightarrow> None | Some p \<Rightarrow> get_prop p d) of
             Some v \<Rightarrow> Json v
           | None \<Rightarrow>
               if d = ''__proto__'' then (case proto stats of None \<Rightarrow> Runtime | Some p \<Rightarrow> Json p)
               else if d \<in> set Object_prototype_members then Runtime
               else Undefined))"

text \<open>
  \<open>stats[d] = value\<close> for an object \<open>value\<close>: the setter of \<open>__proto__\<close> is reached when
  neither the record nor its prototype has a property of that name of its own; any other
  assignment writes an own entry (in place, or appended).
\<close>

definition assign :: "stats_record \<Rightarrow> string \<Rightarrow> json \<Rightarrow> stats_record" where
  "assign stats d v =
     (if d = ''__proto__'' \<and> map_of (entries stats) d = None \<and>
         (case proto stats of None \<Rightarrow> None | Some p \<Rightarrow> get_prop p d) = None
      then stats\<lparr>proto := Some v\<rparr>
      else stats\<lparr>entries := AList.update d v (entries stats)\<rparr>)"

fun Object_entries :: "json \<Rightarrow> (string \<times> json) list" where
  "Object_entries (JObj kvs) = kvs"
| "Object_entries _ = []"

definition getAllDailyStats ::
  "JSON \<Rightarrow> localStorage \<Rightarrow> exn + (stats_record \<times> localStorage)" where
  "getAllDailyStats J ls =
     (case isLocalStorageAvailable ls of
        (False, ls1) \<Rightarrow> Inr (\<lparr>entries = [], proto = None\<rparr>, ls1)
      | (True, ls1) \<Rightarrow>
          (case getItem ls1 DAILY_STATS of
             Inl e \<Rightarrow> Inl e
           | Inr text \<Rightarrow>
               (let data = safeJsonParse J text (JObj []) in
                if truthy data \<and> typeof_object data \<and> \<not> Array_isArray (Some data) then
                  Inr (fold (\<lambda>(d, v) stats. if isValidDailyStats v then assign stats d v else stats)
                            (Object_entries data) \<lparr>entries = [], proto = None\<rparr>,
                       ls1)
                else Inr (\<lparr>entries = [], proto = None\<rparr>, ls1))))"

text \<open>
  What holds of every record that \<open>getAllDailyStats\<close> builds: the own entries are
  validated objects under distinct keys, and \<open>"__proto__"\<close> is among the keys only if the
  prototype was replaced.
\<close>

definition validated :: "stats_record \<Rightarrow> bool" where
  "validated stats = ((\<forall>(k, v) \<in> set (entries stats). isValidDailyStats v) \<and>
     distinct (map fst (entries stats)) \<and>
     (proto stats = None \<longrightarrow> ''__proto__'' \<notin> fst ` set (entries stats)))"

text \<open>\<open>JSON.stringify(stats)\<close> writes the record's own entries only.\<close>

definition saveDailyStats :: "JSON \<Rightarrow> stats_record \<Rightarrow> localStorage \<Rightarrow> localStorage" where
  "saveDailyStats J stats ls =
     (case isLocalStorageAvailable ls of
        (False, ls1) \<Rightarrow> ls1
      | (True, ls1) \<Rightarrow>
          (case setItem ls1 DAILY_STATS (JSON_stringify J (JObj (entries stats))) of
             Inl e \<Rightarrow> ls1
           | Inr ls2 \<Rightarrow> ls2))"

text \<open>
  \<open>allStats[date] || {date, totalFocusMs: 0, sessionCount: 0, sessions: []}\<close>: the default
  replaces a missing or falsy value.
\<close>

definition defaultStats :: "string \<Rightarrow> json" where
  "defaultStats d =
     JObj [(''date'', JStr d), (''totalFocusMs'', JNum (Finite 0)),
           (''sessionCount'', JNum (Finite 0)), (''sessions'', JArr [])]"

definition statsOrDefault :: "stats_record \<Rightarrow> string \<Rightarrow> looked_up" where
  "statsOrDefault allStats d =
     (case lookup allStats d of
        Undefined \<Rightarrow> Json (defaultStats d)
      | Json v \<Rightarrow> if truthy v then Json v else Json (defaultStats d)
      | Runtime \<Rightarrow> Runtime)"

text \<open>
  \<open>x += n\<close> on a property value \<open>x\<close> and a number \<open>n\<close>: numeric for a number, \<open>undefined\<close>,
  \<open>null\<close> and booleans, a concatenation for a string, an array or an object.
\<close>

definition js_plus :: "JSON \<Rightarrow> json option \<Rightarrow> number \<Rightarrow> json" where
  "js_plus J x n =
     (case x of
        None \<Rightarrow> JNum NaN
      | Some (JNum a) \<Rightarrow> JNum (js_add a n)
      | Some JNull \<Rightarrow> JNum (js_add (Finite 0) n)
      | Some (JBool b) \<Rightarrow> JNum (js_add (Finite (if b then 1 else 0)) n)
      | Some (JStr s) \<Rightarrow> JStr (s @ ToString J (JNum n))
      | Some v \<Rightarrow> JStr (ToString J v @ ToString J (JNum n)))"

text \<open>
  The three update statements that \<open>saveSession\<close> and \<open>saveSessionForDate\<close> share, on the
  value the lookup gave. \<open>sessions.push\<close> throws a \<open>TypeError\<close> unless \<open>sessions\<close> is an
  array: so it does on every value that is not an object with such a field (a primitive, an
  array, a function of the runtime).
\<close>

definition addSession :: "JSON \<Rightarrow> looked_up \<Rightarrow> number SessionData \<Rightarrow> exn + json" where
  "addSession J stats session =
     (case stats of
        Json (JObj kvs) \<Rightarrow>
          (let kvs1 = AList.update ''totalFocusMs''
                         (js_plus J (map_of kvs ''totalFocusMs'') (duration session)) kvs;
               kvs2 = AList.update ''sessionCount''
                         (js_plus J (map_of kvs1 ''sessionCount'') (Finite 1)) kvs1
           in case map_of kvs2 ''sessions'' of
                Some (JArr xs) \<Rightarrow>
                  Inr (JObj (AList.update ''sessions'' (JArr (xs @ [SessionData_value session])) kvs2))
              | _ \<Rightarrow> Inl TypeError)
      | _ \<Rightarrow> Inl TypeError)"

text \<open>\<open>getTodayDateString()\<close> reads the wall clock; its result is the argument \<open>today\<close>.\<close>

definition saveSession ::
  "JSON \<Rightarrow> string \<Rightarrow> number SessionData \<Rightarrow> localStorage \<Rightarrow> exn + localStorage" where
  "saveSession J today session ls =
     (case isLocalStorageAvailable ls of
        (False, ls1) \<Rightarrow> Inr ls1
      | (True, ls1) \<Rightarrow>
          (case getAllDailyStats J ls1 of
             Inl e \<Rightarrow> Inl e
           | Inr (allStats, ls2) \<Rightarrow>
               (case addSession J (statsOrDefault allStats today) session of
                  Inl e \<Rightarrow> Inl e
                | Inr todayStats \<Rightarrow>
                    (let ls3 = saveDailyStats J (assign allStats today todayStats) ls2
                     in case setItem ls3 LAST_SESSION (JSON_stringify J (SessionData_value session)) of
                          Inl e \<Rightarrow> Inr ls3
                        | Inr ls4 \<Rightarrow> Inr ls4))))"

definition saveSessionForDate ::
  "JSON \<Rightarrow> number SessionData \<Rightarrow> string \<Rightarrow> localStorage \<Rightarrow> exn + localStorage" where
  "saveSessionForDate J session d ls =
     (case isLocalStorageAvailable ls of
        (False, ls1) \<Rightarrow> Inr ls1
      | (True, ls1) \<Rightarrow>
          (case getAllDailyStats J ls1 of
             Inl e \<Rightarrow> Inl e
           | Inr (allStats, ls2) \<Rightarrow>
               (case addSession J (statsOrDefault allStats d) session of
                  Inl e \<Rightarrow> Inl e
                | Inr dateStats \<Rightarrow> Inr (saveDailyStats J (assign allStats d dateStats) ls2))))"

definition getStatsForDate ::
  "JSON \<Rightarrow> string \<Rightarrow> localStorage \<Rightarrow> exn + (looked_up \<times> localStorage)" where
  "getStatsForDate J d ls =
     (case getAllDailyStats J ls of
        Inl e \<Rightarrow> Inl e
      | Inr (allStats, ls1) \<Rightarrow> Inr (statsOrDefault allStats d, ls1))"

definition getTodayStats ::
  "JSON \<Rightarrow> string \<Rightarrow> localStorage \<Rightarrow> exn + (looked_up \<times> localStorage)" where
  "getTodayStats J today ls =
     (case getAllDailyStats J ls of
        Inl e \<Rightarrow> Inl e
      | Inr (allStats, ls1) \<Rightarrow> Inr (statsOrDefault allStats today, ls1))"

text \<open>
  What the round-trip properties need of the platform: \<open>JSON.parse\<close> gives back the value
  whose text \<open>JSON.stringify\<close> wrote (a text that is never empty).
\<close>

definition round_trips :: "JSON \<Rightarrow> json \<Rightarrow> bool" where
  "round_trips J d = (JSON_serialize J d \<noteq> [] \<and> JSON_parse J (JSON_serialize J d) = Inr d)"

text \<open>The numbers of a snapshot and of a session are finite.\<close>

fun finite_number :: "number \<Rightarrow> bool" where
  "finite_number (Finite r) = True"
| "finite_number _ = False"

definition finite_snapshot :: "number TimerSnapshot \<Rightarrow> bool" where
  "finite_snapshot s =
     ((case startTimestamp s of None \<Rightarrow> True | Some t \<Rightarrow> finite_number t) \<and>
      finite_number (pausedElapsed s) \<and> finite_number (pomodoroRemainingMs s))"

definition finite_session :: "number SessionData \<Rightarrow> bool" where
  "finite_session s =
     (finite_number (startTime s) \<and> finite_number (endTime s) \<and> finite_number (duration s))"

text \<open>
  A finite fragment of JSON for concrete runs: a table of texts and the values they denote.
  Any other text is malformed.
\<close>

definition table_JSON :: "(string \<times> json) list \<Rightarrow> JSON" where
  "table_JSON tab =
     \<lparr>JSON_serialize = (\<lambda>d. case find (\<lambda>(t, d'). d' = d) tab of Some (t, d') \<Rightarrow> t | None \<Rightarrow> ''null''),
      JSON_parse = (\<lambda>t. case map_of tab t of Some d \<Rightarrow> Inr d | None \<Rightarrow> Inl SyntaxError),
      ToString = (\<lambda>v. ''[object Object]'')\<rparr>"

definition empty_store :: localStorage where
  "empty_store = \<lparr>blocked = False, rejects = (\<lambda>k v. False), items = Map.empty\<rparr>"

text \<open>A snapshot and a session of the hook's for concrete runs.\<close>

definition demo_snapshot :: "real TimerSnapshot" where
  "demo_snapshot =
     \<lparr>state = Paused, mode = Pomodoro, startTimestamp = None, pausedElapsed = 60000,
      pomodoroPhase = Work, pomodoroRemainingMs = 1440000\<rparr>"

definition demo_session :: "real SessionData" where
  "demo_session =
     \<lparr>session_id = ''1733040000000-k3j9x2m1q'', startTime = 1733040000000,
      endTime = 1733041500000, duration = 1500000, session_mode = Pomodoro, completed = True\<rparr>"

text \<open>
  Further values for concrete runs: that snapshot and that session with a number
  that is not finite (what \<open>JSON.parse\<close> gives for \<open>1e999\<close>, and every sum with it); the
  statistics entries that recording them writes; a statistics text with an entry under the
  key \<open>"__proto__"\<close>; and a table of JSON texts holding them.
\<close>

definition endless_snapshot :: "number TimerSnapshot" where
  "endless_snapshot = (stored_snapshot demo_snapshot)\<lparr>pausedElapsed := Infinity\<rparr>"

definition endless_session :: "number SessionData" where
  "endless_session = (stored_session demo_session)\<lparr>duration := Infinity\<rparr>"

definition demo_stats :: json where
  "demo_stats =
     JObj [(''date'', JStr ''2024-12-01''), (''totalFocusMs'', JNum (Finite 1500000)),
           (''sessionCount'', JNum (Finite 1)),
           (''sessions'', JArr [SessionData_value (stored_session demo_session)])]"

definition endless_stats :: json where
  "endless_stats =
     JObj [(''date'', JStr ''2024-12-01''), (''totalFocusMs'', JNum Infinity),
           (''sessionCount'', JNum (Finite 1)),
           (''sessions'', JArr [SessionData_value endless_session])]"

definition earlier_stats :: json where
  "earlier_stats =
     JObj [(''date'', JStr ''2024-11-30''), (''totalFocusMs'', JNum Infinity),
           (''sessionCount'', JNum (Finite 1)), (''sessions'', JArr [])]"

definition tampered_stats :: json where
  "tampered_stats =
     JObj [(''__proto__'',
            JObj [(''date'', JStr ''''), (''totalFocusMs'', JNum (Finite 0)),
                  (''sessionCount'', JNum (Finite 0)), (''sessions'', JArr []),
                  (''2024-12-02'', JObj [(''totalFocusMs'', JNum (Finite 7))])])]"

definition demo_JSON :: JSON where
  "demo_JSON =
     table_JSON
       [(''{state:paused,mode:pomodoro,startTimestamp:null,pausedElapsed:60000,...}'',
         TimerSnapshot_value (stored_snapshot demo_snapshot)),
        (''{id:1733040000000-k3j9x2m1q,...,duration:1500000,mode:pomodoro,completed:true}'',
         SessionData_value (stored_session demo_session)),
        (''{2024-12-01:{date:2024-12-01,totalFocusMs:1500000,sessionCount:1,sessions:[...]}}'',
         JObj [(''2024-12-01'', demo_stats)]),
        (''{state:paused,mode:pomodoro,startTimestamp:null,pausedElapsed:null,...}'',
         finite_or_null (TimerSnapshot_value endless_snapshot)),
        (''{id:1733040000000-k3j9x2m1q,...,duration:null,mode:pomodoro,completed:true}'',
         finite_or_null (SessionData_value endless_session)),
        (''{2024-12-01:{date:2024-12-01,totalFocusMs:null,sessionCount:1,sessions:[...]}}'',
         finite_or_null (JObj [(''2024-12-01'', endless_stats)])),
        (''{2024-11-30:{date:2024-11-30,totalFocusMs:1e999,sessionCount:1,sessions:[]}}'',
         JObj [(''2024-11-30'', earlier_stats)]),
        (''{2024-11-30:{date:2024-11-30,totalFocusMs:null,...},2024-12-01:{...}}'',
         finite_or_null (JObj [(''2024-11-30'', earlier_stats), (''2024-12-01'', demo_stats)])),
        (''{__proto__:{date:,totalFocusMs:0,sessionCount:0,sessions:[],2024-12-02:{...}}}'',
         tampered_stats)]"

subsection \<open>Playlist navigation (components/audio/useAudioEngine.ts)\<close>

datatype Mood = Happy | Neutral | Sad

record Track =
  track_id :: string
  title :: string
  artist :: string
  src :: string
  track_duration :: real

text \<open>
  The part of the hook's state that \<open>next\<close> and \<open>previous\<close> read and write. The track
  index is a JavaScript number; \<open>None\<close> is NaN, which \<open>x % 0\<close> produces. The source's
  \<open>next\<close> is \<open>next_track\<close> here, \<open>next\<close> being a reserved word.
\<close>

record AudioEngineState =
  playlists :: "Mood \<Rightarrow> Track list"
  currentMood :: Mood
  trackIndex :: "int option"

definition playlist :: "AudioEngineState \<Rightarrow> Track list" where
  "playlist s = playlists s (currentMood s)"

text \<open>JavaScript \<open>a % b\<close> on integers: the sign follows the dividend, and \<open>b = 0\<close> gives NaN.\<close>

definition js_rem :: "int \<Rightarrow> int \<Rightarrow> int option" where
  "js_rem a b = (if b = 0 then None else Some (sgn a * (\<bar>a\<bar> mod \<bar>b\<bar>)))"

definition next_track :: "AudioEngineState \<Rightarrow> AudioEngineState" where
  "next_track s =
     s\<lparr>trackIndex :=
         (case trackIndex s of
            None \<Rightarrow> None
          | Some i \<Rightarrow> js_rem (i + 1) (int (length (playlist s))))\<rparr>"

definition previous :: "AudioEngineState \<Rightarrow> AudioEngineState" where
  "previous s =
     s\<lparr>trackIndex :=
         (case trackIndex s of
            None \<Rightarrow> None
          | Some i \<Rightarrow> Some (if i = 0 then int (length (playlist s)) - 1 else i - 1))\<rparr>"

subsection \<open>Ad waterfall orchestrator (components/ads/orchestrator.ts, types.ts)\<close>

datatype AdProvider = Adsense | Adsterra | Monetag

datatype AdSlotId = AD_TOP_LEADERBOARD | AD_SIDE_RAIL_1 | AD_SIDE_RAIL_2 | AD_INCONTENT_1 | AD_BOTTOM

datatype Device = Desktop | Mobile

text \<open>
  Of \<open>AdSlotConfig\<close> and \<open>AdConfig\<close>, the fields the orchestrator reads (it never reads
  \<open>sizes\<close> outside \<open>getSlotSizes\<close>, nor \<open>enabledPages\<close>, \<open>sticky\<close> or \<open>AdConfig.enabled\<close>).
  \<open>provider_enabled p\<close> is \<open>config.providers[p]?.enabled\<close>.
\<close>

record AdSlotConfig =
  slot_id :: AdSlotId
  providers :: "AdProvider list"
  enabledDevices :: "Device list"
  lazy :: bool

record AdConfig =
  slots :: "AdSlotConfig list"
  provider_enabled :: "AdProvider \<Rightarrow> bool"
  mobileSlotLimit :: int

record AdSlotState =
  loaded :: bool
  filled :: bool
  currentProvider :: "AdProvider option"
  error :: "string option"

text \<open>
  How the race of \<open>adapter.load(slotId, container)\<close> against the 5 s timeout ends: the
  promise resolves to a boolean, rejects (or \<open>load\<close> throws), or the timeout wins.
\<close>

datatype load_result = Resolved bool | Rejected | TimedOut

record AdProviderAdapter =
  name :: AdProvider
  isAvailable :: bool
  load :: "AdSlotId \<Rightarrow> load_result"

text \<open>
  \<open>observers\<close> holds the slots whose visibility observer is connected; \<open>loadCallbacks\<close> the
  subscribed callbacks, by number, in subscription order.
\<close>

record AdOrchestrator =
  config :: AdConfig
  slotStates :: "AdSlotId \<rightharpoonup> AdSlotState"
  observers :: "AdSlotId set"
  adapters :: "AdProvider \<rightharpoonup> AdProviderAdapter"
  loadCallbacks :: "nat list"
  adsenseActive :: bool
  loadedSlots :: "AdSlotId set"
  mobileSlotCount :: int

text \<open>
  What the orchestrator does to the outside: it invokes a provider's \<open>load\<close> for a slot,
  and it calls a subscribed callback with a slot's new state.
\<close>

datatype event =
    LoadCalled AdProvider AdSlotId
  | Callback nat AdSlotId AdSlotState

definition initializeSlotStates :: "AdOrchestrator \<Rightarrow> AdOrchestrator" where
  "initializeSlotStates orc =
     fold (\<lambda>slot acc.
             acc\<lparr>slotStates := (slotStates acc)(slot_id slot \<mapsto>
                 \<lparr>loaded = False, filled = False, currentProvider = None, error = None\<rparr>)\<rparr>)
          (slots (config orc)) orc"

definition new_AdOrchestrator :: "AdConfig \<Rightarrow> AdOrchestrator" where
  "new_AdOrchestrator cfg =
     initializeSlotStates
       \<lparr>config = cfg, slotStates = Map.empty, observers = {}, adapters = Map.empty,
        loadCallbacks = [], adsenseActive = False, loadedSlots = {}, mobileSlotCount = 0\<rparr>"

definition registerAdapter :: "AdProviderAdapter \<Rightarrow> AdOrchestrator \<Rightarrow> AdOrchestrator" where
  "registerAdapter adapter orc = orc\<lparr>adapters := (adapters orc)(name adapter \<mapsto> adapter)\<rparr>"

definition onSlotStateChange :: "nat \<Rightarrow> AdOrchestrator \<Rightarrow> AdOrchestrator" where
  "onSlotStateChange callback orc =
     orc\<lparr>loadCallbacks :=
           (if callback \<in> set (loadCallbacks orc) then loadCallbacks orc
            else loadCallbacks orc @ [callback])\<rparr>"

definition notifyStateChange :: "AdOrchestrator \<Rightarrow> AdSlotId \<Rightarrow> AdSlotState \<Rightarrow> event list" where
  "notifyStateChange orc slotId st = map (\<lambda>callback. Callback callback slotId st) (loadCallbacks orc)"

text \<open>\<open>window.innerWidth\<close> is the argument \<open>w\<close>; \<open>None\<close> when there is no \<open>window\<close>.\<close>

definition isMobile :: "real option \<Rightarrow> bool" where
  "isMobile w = (case w of None \<Rightarrow> False | Some innerWidth \<Rightarrow> innerWidth < 1024)"

definition getSlotConfig :: "AdOrchestrator \<Rightarrow> AdSlotId \<Rightarrow> AdSlotConfig option" where
  "getSlotConfig orc slotId = find (\<lambda>s. slot_id s = slotId) (slots (config orc))"

definition isSlotEnabledForDevice :: "real option \<Rightarrow> AdOrchestrator \<Rightarrow> AdSlotId \<Rightarrow> bool" where
  "isSlotEnabledForDevice w orc slotId =
     (case getSlotConfig orc slotId of
        None \<Rightarrow> False
      | Some slot \<Rightarrow>
          (let device = (if isMobile w then Mobile else Desktop)
           in device \<in> set (enabledDevices slot)))"

definition canLoadMobileSlot :: "real option \<Rightarrow> AdOrchestrator \<Rightarrow> bool" where
  "canLoadMobileSlot w orc =
     (if \<not> isMobile w then True else mobileSlotCount orc < mobileSlotLimit (config orc))"

definition getAvailableProviders :: "AdOrchestrator \<Rightarrow> AdProvider list \<Rightarrow> AdProvider list" where
  "getAvailableProviders orc ps = filter (\<lambda>p. provider_enabled (config orc) p) ps"

text \<open>
  One iteration of the provider loop of \<open>triggerLoad\<close> up to its \<open>await\<close>: the provider is
  skipped (\<open>continue\<close>), or its \<open>load\<close> is invoked and will end as given.
\<close>

datatype iteration = Skipped | Invoked load_result

definition attempt :: "AdOrchestrator \<Rightarrow> AdSlotId \<Rightarrow> AdProvider \<Rightarrow> iteration" where
  "attempt orc slotId provider =
     (case adapters orc provider of
        None \<Rightarrow> Skipped
      | Some adapter \<Rightarrow>
          if \<not> isAvailable adapter then Skipped
          else if adsenseActive orc \<and> (provider = Adsterra \<or> provider = Monetag) then Skipped
          else Invoked (load adapter slotId))"

text \<open>The body of \<open>if (filled)\<close>, and the code after the loop.\<close>

definition fillSlot :: "AdOrchestrator \<Rightarrow> AdSlotId \<Rightarrow> AdProvider \<Rightarrow> AdOrchestrator \<times> event list" where
  "fillSlot orc slotId provider =
     (let orc1 = (if provider = Adsense then orc\<lparr>adsenseActive := True\<rparr> else orc);
          successState = \<lparr>loaded = True, filled = True, currentProvider = Some provider, error = None\<rparr>;
          orc2 = orc1\<lparr>slotStates := (slotStates orc1)(slotId \<mapsto> successState)\<rparr>
      in (orc2, notifyStateChange orc2 slotId successState))"

definition failSlot :: "AdOrchestrator \<Rightarrow> AdSlotId \<Rightarrow> AdOrchestrator \<times> event list" where
  "failSlot orc slotId =
     (let failedState = \<lparr>loaded = True, filled = False, currentProvider = None,
                         error = Some ''All providers failed to fill''\<rparr>;
          orc1 = orc\<lparr>slotStates := (slotStates orc)(slotId \<mapsto> failedState)\<rparr>
      in (orc1, notifyStateChange orc1 slotId failedState))"

text \<open>
  The provider loop run to its end with nothing else running between its iterations.
\<close>

fun waterfall :: "AdOrchestrator \<Rightarrow> AdSlotId \<Rightarrow> AdProvider list \<Rightarrow> AdOrchestrator \<times> event list" where
  "waterfall orc slotId [] = failSlot orc slotId"
| "waterfall orc slotId (provider # rest) =
     (case attempt orc slotId provider of
        Skipped \<Rightarrow> waterfall orc slotId rest
      | Invoked r \<Rightarrow>
          (if r = Resolved True then
             (let (orc1, evs) = fillSlot orc slotId provider
              in (orc1, LoadCalled provider slotId # evs))
           else
             (let (orc1, evs) = waterfall orc slotId rest
              in (orc1, LoadCalled provider slotId # evs))))"

text \<open>
  The synchronous head of \<open>triggerLoad\<close>: the guards, the bookkeeping, the loading state.
  It returns the providers the loop will go through, or \<open>None\<close> when a guard returned.
\<close>

definition acceptSlot ::
  "real option \<Rightarrow> AdSlotId \<Rightarrow> AdOrchestrator \<Rightarrow> (AdOrchestrator \<times> AdProvider list \<times> event list) option" where
  "acceptSlot w slotId orc =
     (if slotId \<in> loadedSlots orc then None
      else if \<not> isSlotEnabledForDevice w orc slotId then None
      else if \<not> canLoadMobileSlot w orc then None
      else
        (case getSlotConfig orc slotId of
           None \<Rightarrow> None
         | Some slot \<Rightarrow>
             (let orc1 = orc\<lparr>loadedSlots := insert slotId (loadedSlots orc)\<rparr>;
                  orc2 = (if isMobile w then orc1\<lparr>mobileSlotCount := mobileSlotCount orc1 + 1\<rparr>
                          else orc1);
                  loadingState = \<lparr>loaded = False, filled = False, currentProvider = None,
                                  error = None\<rparr>;
                  orc3 = orc2\<lparr>slotStates := (slotStates orc2)(slotId \<mapsto> loadingState)\<rparr>
              in Some (orc3, getAvailableProviders orc3 (providers slot),
                       notifyStateChange orc3 slotId loadingState))))"

text \<open>One whole \<open>triggerLoad\<close> call, uninterrupted.\<close>

definition triggerLoad :: "real option \<Rightarrow> AdSlotId \<Rightarrow> AdOrchestrator \<Rightarrow> AdOrchestrator \<times> event list" where
  "triggerLoad w slotId orc =
     (case acceptSlot w slotId orc of
        None \<Rightarrow> (orc, [])
      | Some (orc1, ps, evs) \<Rightarrow>
          (let (orc2, evs2) = waterfall orc1 slotId ps in (orc2, evs @ evs2)))"

definition unregisterSlot :: "AdSlotId \<Rightarrow> AdOrchestrator \<Rightarrow> AdOrchestrator" where
  "unregisterSlot slotId orc = orc\<lparr>observers := observers orc - {slotId}\<rparr>"

definition destroy :: "AdOrchestrator \<Rightarrow> AdOrchestrator" where
  "destroy orc = orc\<lparr>observers := {}, loadCallbacks := [], loadedSlots := {}\<rparr>"

text \<open>
  The orchestrator with its \<open>triggerLoad\<close> calls in flight. A call is suspended at an
  \<open>await\<close>, so calls on different slots interleave: each one runs an iteration of its loop at
  a time. A task holds the slot, the providers still to go through, and the load it awaits.
\<close>

record task =
  task_slot :: AdSlotId
  remaining :: "AdProvider list"
  awaiting :: "(AdProvider \<times> load_result) option"

record page =
  orch :: AdOrchestrator
  tasks :: "task list"
  trace :: "event list"

datatype action =
    TriggerLoad "real option" AdSlotId
  | RegisterSlot "real option" AdSlotId
  | Intersect "real option" AdSlotId
  | Advance nat
  | RegisterAdapter AdProviderAdapter
  | OnSlotStateChange nat
  | UnregisterSlot AdSlotId
  | Destroy

definition beginLoad :: "real option \<Rightarrow> AdSlotId \<Rightarrow> page \<Rightarrow> page" where
  "beginLoad w slotId pg =
     (case acceptSlot w slotId (orch pg) of
        None \<Rightarrow> pg
      | Some (orc1, ps, evs) \<Rightarrow>
          pg\<lparr>orch := orc1,
             tasks := tasks pg @ [\<lparr>task_slot = slotId, remaining = ps, awaiting = None\<rparr>],
             trace := trace pg @ evs\<rparr>)"

text \<open>
  Task \<open>i\<close> goes on: a settled load is examined, or the next iteration runs up to its
  \<open>await\<close>, or the loop is over. A finished task is dropped.
\<close>

definition advance :: "nat \<Rightarrow> page \<Rightarrow> page" where
  "advance i pg =
     (if i \<ge> length (tasks pg) then pg
      else
        (let t = tasks pg ! i; slotId = task_slot t in
         case awaiting t of
           Some (provider, r) \<Rightarrow>
             if r = Resolved True then
               (let (orc1, evs) = fillSlot (orch pg) slotId provider
                in pg\<lparr>orch := orc1, tasks := take i (tasks pg) @ drop (Suc i) (tasks pg),
                      trace := trace pg @ evs\<rparr>)
             else pg\<lparr>tasks := (tasks pg)[i := t\<lparr>awaiting := None\<rparr>]\<rparr>
         | None \<Rightarrow>
             (case remaining t of
                [] \<Rightarrow>
                  (let (orc1, evs) = failSlot (orch pg) slotId
                   in pg\<lparr>orch := orc1, tasks := take i (tasks pg) @ drop (Suc i) (tasks pg),
                         trace := trace pg @ evs\<rparr>)
              | provider # rest \<Rightarrow>
                  (case attempt (orch pg) slotId provider of
                     Skipped \<Rightarrow> pg\<lparr>tasks := (tasks pg)[i := t\<lparr>remaining := rest\<rparr>]\<rparr>
                   | Invoked r \<Rightarrow>
                       pg\<lparr>tasks := (tasks pg)[i := t\<lparr>remaining := rest,
                                                     awaiting := Some (provider, r)\<rparr>],
                          trace := trace pg @ [LoadCalled provider slotId]\<rparr>))))"

fun perform :: "action \<Rightarrow> page \<Rightarrow> page" where
  "perform (TriggerLoad w slotId) pg = beginLoad w slotId pg"
| "perform (RegisterSlot w slotId) pg =
     (case getSlotConfig (orch pg) slotId of
        None \<Rightarrow> beginLoad w slotId pg
      | Some slot \<Rightarrow>
          if \<not> lazy slot then beginLoad w slotId pg
          else pg\<lparr>orch := (orch pg)\<lparr>observers := insert slotId (observers (orch pg))\<rparr>\<rparr>)"
| "perform (Intersect w slotId) pg =
     (if slotId \<in> observers (orch pg) \<and> slotId \<notin> loadedSlots (orch pg) then
        (let pg1 = beginLoad w slotId pg
         in pg1\<lparr>orch := (orch pg1)\<lparr>observers := observers (orch pg1) - {slotId}\<rparr>\<rparr>)
      else pg)"
| "perform (Advance i) pg = advance i pg"
| "perform (RegisterAdapter adapter) pg = pg\<lparr>orch := registerAdapter adapter (orch pg)\<rparr>"
| "perform (OnSlotStateChange callback) pg = pg\<lparr>orch := onSlotStateChange callback (orch pg)\<rparr>"
| "perform (UnregisterSlot slotId) pg = pg\<lparr>orch := unregisterSlot slotId (orch pg)\<rparr>"
| "perform (Destroy) pg = pg\<lparr>orch := destroy (orch pg)\<rparr>"

text \<open>
  What is left of a call from where its task stands, when nothing else runs in between: the
  settled load is examined, and the loop goes on from the providers that remain.
\<close>

definition rest_of_call :: "AdOrchestrator \<Rightarrow> task \<Rightarrow> AdOrchestrator \<times> event list" where
  "rest_of_call orc t =
     (case awaiting t of
        Some (provider, r) \<Rightarrow>
          if r = Resolved True then fillSlot orc (task_slot t) provider
          else waterfall orc (task_slot t) (remaining t)
      | None \<Rightarrow> waterfall orc (task_slot t) (remaining t))"

text \<open>The providers whose \<open>load\<close> a trace shows invoked, in order.\<close>

fun loadsCalled :: "event list \<Rightarrow> (AdProvider \<times> AdSlotId) list" where
  "loadsCalled [] = []"
| "loadsCalled (LoadCalled p slotId # evs) = (p, slotId) # loadsCalled evs"
| "loadsCalled (Callback c slotId st # evs) = loadsCalled evs"

text \<open>
  For the statements about one call: whether a provider's \<open>load\<close> would fill the slot, the
  candidates (configured-enabled, with a registered adapter that reports available), and
  the AdSense policy (a provider other than AdSense is skipped once the flag is set).
\<close>

definition fills :: "AdOrchestrator \<Rightarrow> AdSlotId \<Rightarrow> AdProvider \<Rightarrow> bool" where
  "fills orc slotId p =
     (case adapters orc p of None \<Rightarrow> False | Some adapter \<Rightarrow> load adapter slotId = Resolved True)"

definition candidates :: "AdOrchestrator \<Rightarrow> AdSlotConfig \<Rightarrow> AdProvider list" where
  "candidates orc slot =
     filter (\<lambda>p. provider_enabled (config orc) p \<and>
                 (case adapters orc p of None \<Rightarrow> False | Some adapter \<Rightarrow> isAvailable adapter))
            (providers slot)"

definition permitted :: "AdOrchestrator \<Rightarrow> AdProvider \<Rightarrow> bool" where
  "permitted orc p = (p = Adsense \<or> \<not> adsenseActive orc)"

text \<open>
  One call followed through a run of the page: the call is the task at position \<open>i\<close>, and
  a position moves down when an earlier task finishes. \<open>follow i acts pg\<close> gives the events
  that the call's own steps append and the orchestrator as its last step leaves it; \<open>None\<close>
  when the run ends with the call still in flight.
\<close>

fun follow :: "nat \<Rightarrow> action list \<Rightarrow> page \<Rightarrow> (event list \<times> AdOrchestrator) option" where
  "follow i [] pg = None"
| "follow i (Advance j # acts) pg =
     (let pg1 = advance j pg;
          finished = (length (tasks pg1) < length (tasks pg));
          evs = drop (length (trace pg)) (trace pg1)
      in if j = i then
           (if finished then Some (evs, orch pg1)
            else map_option (\<lambda>(evs', orc). (evs @ evs', orc)) (follow i acts pg1))
         else if j < i \<and> finished then follow (i - 1) acts pg1
         else follow i acts pg1)"
| "follow i (a # acts) pg = follow i acts (perform a pg)"

text \<open>
  While that call is in flight, the AdSense flag keeps the value \<open>f\<close> and no adapter is
  registered.
\<close>

fun steady :: "bool \<Rightarrow> nat \<Rightarrow> action list \<Rightarrow> page \<Rightarrow> bool" where
  "steady f i [] pg = True"
| "steady f i (Advance j # acts) pg =
     (adsenseActive (orch pg) = f \<and>
      (let pg1 = advance j pg;
           finished = (length (tasks pg1) < length (tasks pg))
       in if j = i then finished \<or> steady f i acts pg1
          else if j < i \<and> finished then steady f (i - 1) acts pg1
          else steady f i acts pg1))"
| "steady f i (RegisterAdapter adapter # acts) pg = False"
| "steady f i (a # acts) pg = (adsenseActive (orch pg) = f \<and> steady f i acts (perform a pg))"


text \<open>
  A page for concrete runs: the slots and waterfall orders of \<open>DEFAULT_AD_CONFIG\<close>, every
  provider enabled, and three adapters. AdSense fills the top leaderboard only, Adsterra
  fills any slot, Monetag none.
\<close>

definition demo_config :: AdConfig where
  "demo_config =
     \<lparr>slots =
        [\<lparr>slot_id = AD_TOP_LEADERBOARD, providers = [Adsense, Adsterra, Monetag],
          enabledDevices = [Desktop, Mobile], lazy = True\<rparr>,
         \<lparr>slot_id = AD_SIDE_RAIL_1, providers = [Adsense, Adsterra],
          enabledDevices = [Desktop], lazy = True\<rparr>,
         \<lparr>slot_id = AD_SIDE_RAIL_2, providers = [Adsense, Adsterra],
          enabledDevices = [Desktop], lazy = True\<rparr>,
         \<lparr>slot_id = AD_BOTTOM, providers = [Adsense, Adsterra, Monetag],
          enabledDevices = [Desktop, Mobile], lazy = True\<rparr>],
      provider_enabled = (\<lambda>p. True),
      mobileSlotLimit = 3\<rparr>"

definition demo_orchestrator :: AdOrchestrator where
  "demo_orchestrator =
     registerAdapter
       \<lparr>name = Monetag, isAvailable = True, load = (\<lambda>slotId. Resolved False)\<rparr>
       (registerAdapter
          \<lparr>name = Adsterra, isAvailable = True, load = (\<lambda>slotId. Resolved True)\<rparr>
          (registerAdapter
             \<lparr>name = Adsense, isAvailable = True,
              load = (\<lambda>slotId. Resolved (slotId = AD_TOP_LEADERBOARD))\<rparr>
             (new_AdOrchestrator demo_config)))"

definition demo_bottom :: AdSlotConfig where
  "demo_bottom =
     \<lparr>slot_id = AD_BOTTOM, providers = [Adsense, Adsterra, Monetag],
      enabledDevices = [Desktop, Mobile], lazy = True\<rparr>"

text \<open>The demo orchestrator after AdSense has filled the top leaderboard on a desktop.\<close>

definition demo_after_adsense :: AdOrchestrator where
  "demo_after_adsense = fst (triggerLoad (Some 1280) AD_TOP_LEADERBOARD demo_orchestrator)"

text \<open>
  The demo page with nothing in flight; the demo orchestrator with AdSense named twice in the
  bottom slot's list; and an Adsterra adapter that has become unavailable.
\<close>

definition demo_page :: page where
  "demo_page = \<lparr>orch = demo_orchestrator, tasks = [], trace = []\<rparr>"

definition demo_twice :: AdOrchestrator where
  "demo_twice =
     demo_orchestrator\<lparr>config := demo_config\<lparr>slots :=
        [\<lparr>slot_id = AD_BOTTOM, providers = [Adsense, Adsense],
          enabledDevices = [Desktop, Mobile], lazy = True\<rparr>]\<rparr>\<rparr>"

definition adsterra_gone :: AdProviderAdapter where
  "adsterra_gone = \<lparr>name = Adsterra, isAvailable = False, load = (\<lambda>slotId. Resolved True)\<rparr>"

text \<open>A track for concrete playlists.\<close>

definition demo_track :: Track where
  "demo_track = \<lparr>track_id = ''t1'', title = ''Rain'', artist = ''Haisa'', src = ''/audio/neutral/rain.mp3'',
                 track_duration = 180\<rparr>"

section \<open>Properties\<close>

subsection \<open>Elapsed and remaining time\<close>

text \<open>
  C2 (as stated): for every timer state and clock value the computed elapsed and remaining
  times are never negative. This fails: a running timer whose start timestamp lies after the
  clock reading has a negative elapsed time.
\<close>

theorem C2_elapsed_negative_counterexample:
  "calculateElapsed 5
     \<lparr>state = Running, mode = Stopwatch, startTimestamp = Some 10, pausedElapsed = 0,
      pomodoroPhase = Work, pomodoroRemainingMs = POMODORO_WORK_MS\<rparr> = - 5"
  by (simp add: calculateElapsed_def)

text \<open>
  C2 (amended): the remaining time of a running timer with a start timestamp is clamped at
  zero for every clock value; in every other state the remaining time is non-negative when
  the stored remaining time is; the elapsed time is non-negative when the stored accumulator
  is non-negative and the clock is not earlier than the start timestamp.
\<close>

theorem C2_clamped_where_guarded:
  "((state s = Running \<and> startTimestamp s \<noteq> None) \<or> 0 \<le> pomodoroRemainingMs s
      \<longrightarrow> 0 \<le> calculateRemaining now s)
   \<and> (0 \<le> pausedElapsed s \<and> (\<forall>t. startTimestamp s = Some t \<longrightarrow> t \<le> now)
      \<longrightarrow> 0 \<le> calculateElapsed now s)"
  by (auto simp: calculateRemaining_def calculateElapsed_def POMODORO_WORK_MS_def
      POMODORO_BREAK_MS_def Let_def split: option.splits TimerState.splits)

theorem C2_clamped_where_guarded_witness:
  "0 \<le> calculateRemaining 2000000
      \<lparr>state = Running, mode = Pomodoro, startTimestamp = Some 10, pausedElapsed = 0,
       pomodoroPhase = Work, pomodoroRemainingMs = POMODORO_WORK_MS\<rparr>
   \<and> 0 \<le> calculateElapsed 2000000
      \<lparr>state = Running, mode = Pomodoro, startTimestamp = Some 10, pausedElapsed = 0,
       pomodoroPhase = Work, pomodoroRemainingMs = POMODORO_WORK_MS\<rparr>"
  using C2_clamped_where_guarded [of
      "\<lparr>state = Running, mode = Pomodoro, startTimestamp = Some 10, pausedElapsed = 0,
        pomodoroPhase = Work, pomodoroRemainingMs = POMODORO_WORK_MS\<rparr>" 2000000]
  by simp

subsection \<open>Playlist wraparound\<close>

text \<open>
  C9: for a playlist of length N and a track index i with 0 \<le> i < N, \<open>next\<close> yields 0 when
  i = N - 1 and i + 1 otherwise; \<open>previous\<close> yields N - 1 when i = 0 and i - 1 otherwise.
\<close>

theorem C9_playlist_wraparound:
  assumes "trackIndex s = Some i" and "0 \<le> i" and "i < int (length (playlist s))"
  shows "trackIndex (next_track s) = Some (if i = int (length (playlist s)) - 1 then 0 else i + 1)
       \<and> trackIndex (previous s) = Some (if i = 0 then int (length (playlist s)) - 1 else i - 1)"
  using assms by (auto simp: next_track_def previous_def js_rem_def sgn_if)

theorem C9_playlist_wraparound_witness:
  "trackIndex (next_track \<lparr>playlists = (\<lambda>m. replicate 3 demo_track), currentMood = Neutral,
                          trackIndex = Some 2\<rparr>) = Some 0
   \<and> trackIndex (previous \<lparr>playlists = (\<lambda>m. replicate 3 demo_track), currentMood = Neutral,
                          trackIndex = Some 0\<rparr>) = Some 2"
  using C9_playlist_wraparound [of
      "\<lparr>playlists = (\<lambda>m. replicate 3 demo_track), currentMood = Neutral, trackIndex = Some 2\<rparr>" 2]
    C9_playlist_wraparound [of
      "\<lparr>playlists = (\<lambda>m. replicate 3 demo_track), currentMood = Neutral, trackIndex = Some 0\<rparr>" 0]
  by (simp add: playlist_def)

subsection \<open>Persistent store\<close>

text \<open>
  Each validator accepts exactly the values that have a typed reading, so a value returned
  after validation is never lost in the reading.
\<close>

lemma typeof_number_iff: "typeof_number v = (as_number v \<noteq> None)"
  by (cases v rule: as_number.cases) auto

lemma typeof_string_iff: "typeof_string v = (as_string v \<noteq> None)"
  by (cases v rule: as_string.cases) auto

lemma typeof_boolean_iff: "typeof_boolean v = (as_boolean v \<noteq> None)"
  by (cases v rule: as_boolean.cases) auto

lemma Array_isArray_iff: "Array_isArray v = (as_array v \<noteq> None)"
  by (cases v rule: as_array.cases) auto

lemma number_or_null_iff: "(v = Some JNull \<or> as_number v \<noteq> None) = (as_number_or_null v \<noteq> None)"
  by (cases v rule: as_number_or_null.cases) auto

lemma states_iff:
  "js_includes [''idle'', ''running'', ''paused'', ''finished''] v = (as_TimerState v \<noteq> None)"
  by (cases v rule: as_TimerState.cases) auto

lemma modes_iff: "js_includes [''stopwatch'', ''pomodoro''] v = (as_TimerMode v \<noteq> None)"
  by (cases v rule: as_TimerMode.cases) auto

lemma phases_iff: "js_includes [''work'', ''break''] v = (as_PomodoroPhase v \<noteq> None)"
  by (cases v rule: as_PomodoroPhase.cases) auto

lemma isValidTimerSnapshot_typed: "isValidTimerSnapshot d = (as_TimerSnapshot d \<noteq> None)"
proof (cases d)
  case (JObj kvs)
  then show ?thesis
    unfolding isValidTimerSnapshot_def as_TimerSnapshot_def Let_def states_iff modes_iff
      phases_iff typeof_number_iff number_or_null_iff
    by (auto split: option.splits)
qed (simp_all add: isValidTimerSnapshot_def as_TimerSnapshot_def)

lemma isValidSessionData_typed: "isValidSessionData d = (as_SessionData d \<noteq> None)"
proof (cases d)
  case (JObj kvs)
  then show ?thesis
    unfolding isValidSessionData_def as_SessionData_def Let_def modes_iff
      typeof_number_iff typeof_string_iff typeof_boolean_iff
    by (auto split: option.splits)
qed (simp_all add: isValidSessionData_def as_SessionData_def)

lemma isLocalStorageAvailable_eq:
  "isLocalStorageAvailable ls =
     (if blocked ls \<or> rejects ls ''__storage_test__'' ''__storage_test__'' then (False, ls)
      else (True, ls\<lparr>items := (items ls)(''__storage_test__'' := None)\<rparr>))"
  by (simp add: isLocalStorageAvailable_def setItem_def removeItem_def Let_def)

lemma isValidTimerSnapshot_value: "isValidTimerSnapshot (TimerSnapshot_value s)"
  by (cases "state s"; cases "mode s"; cases "pomodoroPhase s"; cases "startTimestamp s")
     (simp_all add: isValidTimerSnapshot_def TimerSnapshot_value_def)

lemma as_TimerSnapshot_value: "as_TimerSnapshot (TimerSnapshot_value s) = Some s"
  by (cases "state s"; cases "mode s"; cases "pomodoroPhase s"; cases "startTimestamp s")
     (simp_all add: as_TimerSnapshot_def TimerSnapshot_value_def)

lemma isValidSessionData_value: "isValidSessionData (SessionData_value s)"
  by (cases "session_mode s") (simp_all add: isValidSessionData_def SessionData_value_def)

lemma as_SessionData_value: "as_SessionData (SessionData_value s) = Some s"
  by (cases "session_mode s") (simp_all add: as_SessionData_def SessionData_value_def)

lemma truthy_TimerSnapshot_value: "truthy (TimerSnapshot_value s)"
  by (simp add: TimerSnapshot_value_def)

lemma truthy_SessionData_value: "truthy (SessionData_value s)"
  by (simp add: SessionData_value_def)

lemma finite_number_keeps:
  "finite_number n \<Longrightarrow> (case n of Finite r \<Rightarrow> JNum (Finite r) | _ \<Rightarrow> JNull) = JNum n"
  by (cases n) simp_all

lemma finite_snapshot_keeps:
  "finite_snapshot s \<Longrightarrow> finite_or_null (TimerSnapshot_value s) = TimerSnapshot_value s"
  by (cases "startTimestamp s")
     (simp_all add: finite_snapshot_def TimerSnapshot_value_def finite_number_keeps)

lemma finite_session_keeps:
  "finite_session s \<Longrightarrow> finite_or_null (SessionData_value s) = SessionData_value s"
  by (simp add: finite_session_def SessionData_value_def finite_number_keeps)

lemmas demo_values = demo_JSON_def table_JSON_def TimerSnapshot_value_def SessionData_value_def
  stored_snapshot_def stored_session_def demo_snapshot_def demo_session_def endless_snapshot_def
  endless_session_def demo_stats_def endless_stats_def earlier_stats_def tampered_stats_def

lemmas store_steps = isLocalStorageAvailable_eq empty_store_def getItem_def setItem_def
  removeItem_def safeJsonParse_def TIMER_SNAPSHOT_def DAILY_STATS_def LAST_SESSION_def
  JSON_stringify_def Let_def

text \<open>
  C4 (as stated): every valid snapshot is returned by \<open>getTimerSnapshot\<close> after
  \<open>saveTimerSnapshot\<close>. The validator accepts every JavaScript number (\<open>typeof\<close>), and
  \<open>JSON.stringify\<close> writes one that is not finite as \<open>null\<close>: the snapshot with
  \<open>pausedElapsed\<close> infinite is valid, and after it is saved \<open>getTimerSnapshot\<close> returns
  null. Nor is a snapshot returned when \<open>localStorage\<close> is blocked, or refuses the write.
\<close>

theorem C4_non_finite_counterexample:
  "isValidTimerSnapshot (TimerSnapshot_value endless_snapshot) \<and>
   (\<exists>ls'. getTimerSnapshot demo_JSON (saveTimerSnapshot demo_JSON endless_snapshot empty_store)
            = Inr (None, ls')) \<and>
   (\<exists>ls'. getTimerSnapshot demo_JSON
            (saveTimerSnapshot demo_JSON (stored_snapshot demo_snapshot)
               (empty_store\<lparr>blocked := True\<rparr>)) = Inr (None, ls')) \<and>
   (\<exists>ls'. getTimerSnapshot demo_JSON
            (saveTimerSnapshot demo_JSON (stored_snapshot demo_snapshot)
               (empty_store\<lparr>rejects := (\<lambda>k v. k = TIMER_SNAPSHOT)\<rparr>)) = Inr (None, ls'))"
proof -
  have a: "isValidTimerSnapshot (TimerSnapshot_value endless_snapshot)"
    by (rule isValidTimerSnapshot_value)
  have b: "\<exists>ls'. getTimerSnapshot demo_JSON (saveTimerSnapshot demo_JSON endless_snapshot empty_store)
            = Inr (None, ls')"
    by (simp add: getTimerSnapshot_def saveTimerSnapshot_def clearTimerSnapshot_def store_steps
        isValidTimerSnapshot_def demo_values)
  have c: "\<exists>ls'. getTimerSnapshot demo_JSON
            (saveTimerSnapshot demo_JSON (stored_snapshot demo_snapshot)
               (empty_store\<lparr>blocked := True\<rparr>)) = Inr (None, ls')"
    by (simp add: getTimerSnapshot_def saveTimerSnapshot_def store_steps)
  have d: "\<exists>ls'. getTimerSnapshot demo_JSON
            (saveTimerSnapshot demo_JSON (stored_snapshot demo_snapshot)
               (empty_store\<lparr>rejects := (\<lambda>k v. k = TIMER_SNAPSHOT)\<rparr>)) = Inr (None, ls')"
    by (simp add: getTimerSnapshot_def saveTimerSnapshot_def clearTimerSnapshot_def store_steps)
  from a b c d show ?thesis by blast
qed

text \<open>
  C4 (amended): for every \<open>TimerSnapshot\<close> value whose numbers are finite, with a
  \<open>localStorage\<close> that is usable and accepts the write, \<open>saveTimerSnapshot\<close> followed by
  \<open>getTimerSnapshot\<close> returns a snapshot field-wise equal to the saved one. The
  platform's \<open>JSON.parse\<close> gives back the object that \<open>JSON.stringify\<close> wrote.
\<close>

theorem C4_snapshot_round_trip:
  assumes "finite_snapshot snapshot"
    and "fst (isLocalStorageAvailable ls)"
    and "\<not> rejects ls TIMER_SNAPSHOT (JSON_stringify J (TimerSnapshot_value snapshot))"
    and "round_trips J (TimerSnapshot_value snapshot)"
  shows "\<exists>ls'. getTimerSnapshot J (saveTimerSnapshot J snapshot ls) = Inr (Some snapshot, ls')"
  using assms(2-4) finite_snapshot_keeps [OF assms(1)]
  by (simp add: getTimerSnapshot_def saveTimerSnapshot_def isLocalStorageAvailable_eq setItem_def
      getItem_def safeJsonParse_def round_trips_def TIMER_SNAPSHOT_def JSON_stringify_def
      isValidTimerSnapshot_value as_TimerSnapshot_value truthy_TimerSnapshot_value split: if_splits)

theorem C4_snapshot_round_trip_witness:
  "\<exists>ls'. getTimerSnapshot demo_JSON
           (saveTimerSnapshot demo_JSON (stored_snapshot demo_snapshot) empty_store)
          = Inr (Some (stored_snapshot demo_snapshot), ls')"
proof -
  have f: "finite_snapshot (stored_snapshot demo_snapshot)"
    by (simp add: finite_snapshot_def stored_snapshot_def demo_snapshot_def)
  have a: "fst (isLocalStorageAvailable empty_store)"
    by (simp add: isLocalStorageAvailable_eq empty_store_def)
  have b: "\<not> rejects empty_store TIMER_SNAPSHOT
             (JSON_stringify demo_JSON (TimerSnapshot_value (stored_snapshot demo_snapshot)))"
    by (simp add: empty_store_def)
  have c: "round_trips demo_JSON (TimerSnapshot_value (stored_snapshot demo_snapshot))"
    by (simp add: round_trips_def demo_values)
  from C4_snapshot_round_trip [OF f a b c] show ?thesis .
qed

lemma safeJsonParse_cases:
  "safeJsonParse J text fb = fb \<or> (\<exists>t. text = Some t \<and> JSON_parse J t = Inr (safeJsonParse J text fb))"
  by (auto simp: safeJsonParse_def split: option.splits sum.splits)

text \<open>
  C5: whatever string is stored under the timer-snapshot key or the last-session key, and
  whatever \<open>JSON.parse\<close> makes of it, \<open>getTimerSnapshot\<close> and \<open>getLastSession\<close> do not
  throw (the result is never \<open>Inl\<close>), and they return null unless the stored text parses
  to a value that the validator accepts (in which case the result is its typed reading).
\<close>

theorem C5_corrupted_state_safety:
  "(\<exists>r ls'. getTimerSnapshot J ls = Inr (r, ls') \<and>
      (r = None \<or> (\<exists>t d. items ls TIMER_SNAPSHOT = Some t \<and> JSON_parse J t = Inr d \<and>
                       isValidTimerSnapshot d \<and> as_TimerSnapshot d = r)))
   \<and> (\<exists>r ls'. getLastSession J ls = Inr (r, ls') \<and>
      (r = None \<or> (\<exists>t d. items ls LAST_SESSION = Some t \<and> JSON_parse J t = Inr d \<and>
                       isValidSessionData d \<and> as_SessionData d = r)))"
proof -
  have a: "\<exists>r ls'. getTimerSnapshot J ls = Inr (r, ls') \<and>
      (r = None \<or> (\<exists>t d. items ls TIMER_SNAPSHOT = Some t \<and> JSON_parse J t = Inr d \<and>
                       isValidTimerSnapshot d \<and> as_TimerSnapshot d = r))"
    using safeJsonParse_cases [of J "items ls TIMER_SNAPSHOT" JNull]
    by (auto simp: getTimerSnapshot_def isLocalStorageAvailable_eq getItem_def TIMER_SNAPSHOT_def
        Let_def)
  have b: "\<exists>r ls'. getLastSession J ls = Inr (r, ls') \<and>
      (r = None \<or> (\<exists>t d. items ls LAST_SESSION = Some t \<and> JSON_parse J t = Inr d \<and>
                       isValidSessionData d \<and> as_SessionData d = r))"
    using safeJsonParse_cases [of J "items ls LAST_SESSION" JNull]
    by (auto simp: getLastSession_def isLocalStorageAvailable_eq getItem_def LAST_SESSION_def
        Let_def)
  from a b show ?thesis by blast
qed

theorem C5_corrupted_state_safety_witness:
  "(\<exists>ls'. getTimerSnapshot demo_JSON
       (empty_store\<lparr>items := [TIMER_SNAPSHOT \<mapsto> ''{invalid json'']\<rparr>) = Inr (None, ls'))
   \<and> (\<exists>ls'. getLastSession demo_JSON
       (empty_store\<lparr>items := [LAST_SESSION \<mapsto> ''{invalid json'']\<rparr>) = Inr (None, ls'))"
  using C5_corrupted_state_safety [of demo_JSON "empty_store\<lparr>items := [TIMER_SNAPSHOT \<mapsto> ''{invalid json'']\<rparr>"]
    C5_corrupted_state_safety [of demo_JSON "empty_store\<lparr>items := [LAST_SESSION \<mapsto> ''{invalid json'']\<rparr>"]
  by (auto simp: demo_JSON_def table_JSON_def)

text \<open>
  The statistics record that \<open>getAllDailyStats\<close> builds: its own entries are validated
  objects under distinct keys, and \<open>"__proto__"\<close> is among the keys only if the prototype
  was replaced.
\<close>

lemma isValidDailyStats_shape:
  "isValidDailyStats v =
     (\<exists>kvs dt n c xs. v = JObj kvs \<and> map_of kvs ''date'' = Some (JStr dt) \<and>
        map_of kvs ''totalFocusMs'' = Some (JNum n) \<and>
        map_of kvs ''sessionCount'' = Some (JNum c) \<and> map_of kvs ''sessions'' = Some (JArr xs))"
proof (cases v)
  case (JObj kvs)
  show ?thesis
    unfolding JObj isValidDailyStats_def typeof_number_iff typeof_string_iff Array_isArray_iff
    by (auto elim!: as_number.elims as_string.elims as_array.elims)
qed (simp_all add: isValidDailyStats_def)

lemma isValidDailyStats_default: "isValidDailyStats (defaultStats d)"
  by (simp add: isValidDailyStats_def defaultStats_def)

lemma map_of_update: "map_of (AList.update k v kvs) k' = (if k' = k then Some v else map_of kvs k')"
  by (simp add: update_conv')

lemma addSession_valid:
  assumes "map_of kvs ''date'' = Some (JStr dt)"
    and "map_of kvs ''totalFocusMs'' = Some (JNum n)"
    and "map_of kvs ''sessionCount'' = Some (JNum c)"
    and "map_of kvs ''sessions'' = Some (JArr xs)"
  shows "\<exists>kvs'. addSession J (Json (JObj kvs)) session = Inr (JObj kvs') \<and>
           map_of kvs' ''date'' = Some (JStr dt) \<and>
           map_of kvs' ''totalFocusMs'' = Some (JNum (js_add n (duration session))) \<and>
           map_of kvs' ''sessionCount'' = Some (JNum (js_add c (Finite 1))) \<and>
           map_of kvs' ''sessions'' = Some (JArr (xs @ [SessionData_value session]))"
  using assms by (simp add: addSession_def Let_def map_of_update js_plus_def)

lemma set_update_subset: "set (AList.update k v kvs) \<subseteq> insert (k, v) (set kvs)"
  by (induction kvs) auto

lemma validated_assign:
  assumes "validated stats" "isValidDailyStats v"
  shows "validated (assign stats d v)"
proof (cases "d = ''__proto__'' \<and> map_of (entries stats) d = None \<and>
         (case proto stats of None \<Rightarrow> None | Some p \<Rightarrow> get_prop p d) = None")
  case True
  have "assign stats d v = stats\<lparr>proto := Some v\<rparr>"
    unfolding assign_def by (rule if_P [OF True])
  then show ?thesis using assms by (simp add: validated_def)
next
  case False
  have a: "assign stats d v = stats\<lparr>entries := AList.update d v (entries stats)\<rparr>"
    unfolding assign_def by (rule if_not_P [OF False])
  have "\<forall>(k, v') \<in> set (AList.update d v (entries stats)). isValidDailyStats v'"
    using assms set_update_subset [of d v "entries stats"] by (auto simp: validated_def)
  moreover have "distinct (map fst (AList.update d v (entries stats)))"
    using assms by (simp add: validated_def distinct_update)
  moreover have "proto stats = None \<longrightarrow> ''__proto__'' \<notin> fst ` set (AList.update d v (entries stats))"
  proof
    assume p: "proto stats = None"
    with assms have n: "''__proto__'' \<notin> fst ` set (entries stats)" by (simp add: validated_def)
    then have "map_of (entries stats) ''__proto__'' = None" by (simp add: map_of_eq_None_iff)
    with False p have "d \<noteq> ''__proto__''" by auto
    with n show "''__proto__'' \<notin> fst ` set (AList.update d v (entries stats))"
      using set_update_subset [of d v "entries stats"] by auto
  qed
  ultimately show ?thesis unfolding a by (simp add: validated_def)
qed

lemma validated_fold:
  "validated acc \<Longrightarrow>
   validated (fold (\<lambda>(d, v) stats. if isValidDailyStats v then assign stats d v else stats) xs acc)"
  by (induction xs arbitrary: acc) (auto simp: validated_assign)

lemma validated_empty: "validated \<lparr>entries = [], proto = None\<rparr>"
  by (simp add: validated_def)

lemma getAllDailyStats_validated:
  assumes "getAllDailyStats J ls = Inr (allStats, ls0)"
  shows "validated allStats"
  using assms validated_empty validated_fold [OF validated_empty]
  by (auto simp: getAllDailyStats_def Let_def split: prod.splits bool.splits sum.splits if_splits)




lemma getAllDailyStats_available:
  assumes "fst (isLocalStorageAvailable ls)" and "getAllDailyStats J ls = Inr (allStats, ls0)"
  shows "ls0 = ls\<lparr>items := (items ls)(''__storage_test__'' := None)\<rparr> \<and> validated allStats"
  using assms getAllDailyStats_validated [OF assms(2)]
  by (auto simp: getAllDailyStats_def isLocalStorageAvailable_eq getItem_def Let_def
      split: if_splits)










lemmas stats_steps = getAllDailyStats_def saveDailyStats_def saveSession_def
  saveSessionForDate_def getStatsForDate_def getLastSession_def statsOrDefault_def lookup_def
  assign_def addSession_def js_plus_def defaultStats_def isValidDailyStats_def
  isValidSessionData_def Object_prototype_members_def




lemma addSession_returns:
  assumes inv: "validated allStats" and plain: "proto allStats = None"
    and date: "d \<notin> set Object_prototype_members"
  shows "\<exists>st. addSession J (statsOrDefault allStats d) session = Inr st"
proof -
  have "\<exists>e. statsOrDefault allStats d = Json e \<and> isValidDailyStats e"
  proof (cases "map_of (entries allStats) d")
    case None
    then have "statsOrDefault allStats d = Json (defaultStats d)"
      using plain date by (simp add: statsOrDefault_def lookup_def Object_prototype_members_def)
    then show ?thesis using isValidDailyStats_default by blast
  next
    case (Some v)
    then have "(d, v) \<in> set (entries allStats)" by (rule map_of_SomeD)
    with inv have v: "isValidDailyStats v" by (auto simp: validated_def)
    then obtain kvs where "v = JObj kvs" by (auto simp: isValidDailyStats_shape)
    then have "statsOrDefault allStats d = Json v"
      using Some by (simp add: statsOrDefault_def lookup_def)
    then show ?thesis using v by blast
  qed
  then obtain e where e: "statsOrDefault allStats d = Json e" "isValidDailyStats e" by blast
  from e(2) obtain kvs dt n c xs where "e = JObj kvs"
    "map_of kvs ''date'' = Some (JStr dt)" "map_of kvs ''totalFocusMs'' = Some (JNum n)"
    "map_of kvs ''sessionCount'' = Some (JNum c)" "map_of kvs ''sessions'' = Some (JArr xs)"
    by (auto simp: isValidDailyStats_shape)
  with addSession_valid [of kvs dt n c xs J session] e(1) show ?thesis by auto
qed

lemma saveDailyStats_frame:
  "\<not> blocked ls \<Longrightarrow> \<not> rejects ls ''__storage_test__'' ''__storage_test__'' \<Longrightarrow>
   \<not> blocked (saveDailyStats J m ls) \<and> rejects (saveDailyStats J m ls) = rejects ls"
  by (simp add: saveDailyStats_def isLocalStorageAvailable_eq setItem_def)

text \<open>
  C10 (as stated): for every valid session \<open>s\<close>, \<open>getLastSession\<close> right after
  \<open>saveSession s\<close> returns \<open>s\<close>. It fails for a valid session whose duration is not finite
  (written as \<open>null\<close>, refused by the validator at the read), when \<open>localStorage\<close> is
  blocked or refuses the write, and when \<open>saveSession\<close> throws before it reaches the
  last-session key: with a stored \<open>"__proto__"\<close> statistics entry whose value has a
  property named as today and without \<open>sessions\<close>, \<open>sessions.push\<close> is a \<open>TypeError\<close>.
\<close>

theorem C10_lost_session_counterexample:
  "isValidSessionData (SessionData_value endless_session) \<and>
   (\<exists>ls1 ls2. saveSession demo_JSON ''2024-12-01'' endless_session empty_store = Inr ls1 \<and>
       getLastSession demo_JSON ls1 = Inr (None, ls2)) \<and>
   (\<exists>ls1 ls2. saveSession demo_JSON ''2024-12-01'' (stored_session demo_session)
                 (empty_store\<lparr>blocked := True\<rparr>) = Inr ls1 \<and>
       getLastSession demo_JSON ls1 = Inr (None, ls2)) \<and>
   (\<exists>ls1 ls2. saveSession demo_JSON ''2024-12-01'' (stored_session demo_session)
                 (empty_store\<lparr>rejects := (\<lambda>k v. k = LAST_SESSION)\<rparr>) = Inr ls1 \<and>
       getLastSession demo_JSON ls1 = Inr (None, ls2)) \<and>
   saveSession demo_JSON ''2024-12-02'' (stored_session demo_session)
     (empty_store\<lparr>items := [DAILY_STATS \<mapsto>
        ''{__proto__:{date:,totalFocusMs:0,sessionCount:0,sessions:[],2024-12-02:{...}}}'']\<rparr>)
     = Inl TypeError"
proof -
  have a: "isValidSessionData (SessionData_value endless_session)"
    by (rule isValidSessionData_value)
  have b: "\<exists>ls1 ls2. saveSession demo_JSON ''2024-12-01'' endless_session empty_store = Inr ls1 \<and>
       getLastSession demo_JSON ls1 = Inr (None, ls2)"
    by (simp add: stats_steps store_steps demo_values)
  have c: "\<exists>ls1 ls2. saveSession demo_JSON ''2024-12-01'' (stored_session demo_session)
                 (empty_store\<lparr>blocked := True\<rparr>) = Inr ls1 \<and>
       getLastSession demo_JSON ls1 = Inr (None, ls2)"
    by (simp add: saveSession_def getLastSession_def store_steps)
  have d: "\<exists>ls1 ls2. saveSession demo_JSON ''2024-12-01'' (stored_session demo_session)
                 (empty_store\<lparr>rejects := (\<lambda>k v. k = LAST_SESSION)\<rparr>) = Inr ls1 \<and>
       getLastSession demo_JSON ls1 = Inr (None, ls2)"
    by (simp add: stats_steps store_steps demo_values)
  have e: "saveSession demo_JSON ''2024-12-02'' (stored_session demo_session)
     (empty_store\<lparr>items := [DAILY_STATS \<mapsto>
        ''{__proto__:{date:,totalFocusMs:0,sessionCount:0,sessions:[],2024-12-02:{...}}}'']\<rparr>)
     = Inl TypeError"
    by (simp add: stats_steps store_steps demo_values)
  from a b c d e show ?thesis by blast
qed

text \<open>
  C10 (amended): for every \<open>SessionData\<close> value \<open>s\<close> whose numbers are finite, with a
  \<open>localStorage\<close> that is usable and accepts the write of the last-session key, whenever
  \<open>saveSession s\<close> returns, \<open>getLastSession\<close> called right after it returns a session
  field-wise equal to \<open>s\<close>; and \<open>saveSession s\<close> does return when the statistics record
  has the standard prototype and today's date names no member of \<open>Object.prototype\<close>. The
  platform's \<open>JSON.parse\<close> gives back the session object that \<open>JSON.stringify\<close> wrote.
\<close>

theorem C10_last_session_coupled:
  assumes avail: "fst (isLocalStorageAvailable ls)"
    and accepted: "\<not> rejects ls LAST_SESSION (JSON_stringify J (SessionData_value session))"
    and fin: "finite_session session"
    and rt: "round_trips J (SessionData_value session)"
  shows "(\<forall>ls1. saveSession J today session ls = Inr ls1 \<longrightarrow>
            (\<exists>ls2. getLastSession J ls1 = Inr (Some session, ls2))) \<and>
         (\<forall>allStats ls0. getAllDailyStats J ls = Inr (allStats, ls0) \<and> proto allStats = None \<and>
              today \<notin> set Object_prototype_members \<longrightarrow>
            (\<exists>ls1. saveSession J today session ls = Inr ls1))"
proof -
  let ?p = "ls\<lparr>items := (items ls)(''__storage_test__'' := None)\<rparr>"
  let ?text = "JSON_stringify J (SessionData_value session)"
  from avail have nb: "\<not> blocked ls" and nr: "\<not> rejects ls ''__storage_test__'' ''__storage_test__''"
    by (auto simp: isLocalStorageAvailable_eq split: if_splits)
  have nbp: "\<not> blocked ?p" and nrp: "\<not> rejects ?p ''__storage_test__'' ''__storage_test__''"
    using nb nr by simp_all
  have written: "?text = JSON_serialize J (SessionData_value session)"
    using finite_session_keeps [OF fin] by (simp add: JSON_stringify_def)
  have read: "getLastSession J l = Inr (Some session, l\<lparr>items := (items l)(''__storage_test__'' := None)\<rparr>)"
    if "\<not> blocked l" "rejects l = rejects ls" "items l LAST_SESSION = Some ?text" for l
    using that nr rt written
    by (simp add: getLastSession_def isLocalStorageAvailable_eq getItem_def safeJsonParse_def
        round_trips_def isValidSessionData_value as_SessionData_value truthy_SessionData_value
        LAST_SESSION_def)
  have step: "\<exists>ls2. getLastSession J ls1 = Inr (Some session, ls2)"
    if s: "saveSession J today session ls = Inr ls1" for ls1
  proof -
    from s obtain allStats ls2 st where
      "ls1 = (saveDailyStats J (assign allStats today st) ls2)\<lparr>items :=
          (items (saveDailyStats J (assign allStats today st) ls2))(LAST_SESSION \<mapsto> ?text)\<rparr>"
      and g: "getAllDailyStats J ?p = Inr (allStats, ls2)"
      using nb nr accepted saveDailyStats_frame [OF nbp nrp]
      by (auto simp: saveSession_def isLocalStorageAvailable_eq setItem_def Let_def
          getAllDailyStats_def getItem_def
          split: sum.splits prod.splits if_splits)
    moreover from g have "ls2 = ?p"
      using nb nr by (auto simp: getAllDailyStats_def isLocalStorageAvailable_eq getItem_def
          Let_def split: if_splits)
    ultimately show ?thesis
      using read [of ls1] saveDailyStats_frame [OF nbp nrp, of J "assign allStats today st"]
      by auto
  qed
  have returns: "\<exists>ls1. saveSession J today session ls = Inr ls1"
    if g: "getAllDailyStats J ls = Inr (allStats, ls0)" and plain: "proto allStats = None"
      and date: "today \<notin> set Object_prototype_members" for allStats ls0
  proof -
    from getAllDailyStats_available [OF avail g] have ls0: "ls0 = ?p" and inv: "validated allStats"
      by auto
    have same: "getAllDailyStats J ?p = Inr (allStats, ?p)"
      using g nb nr ls0
      by (simp add: getAllDailyStats_def isLocalStorageAvailable_eq getItem_def DAILY_STATS_def)
    from addSession_returns [OF inv plain date] obtain st
      where "addSession J (statsOrDefault allStats today) session = Inr st" by blast
    then show ?thesis
      using nb nr same
      by (auto simp: saveSession_def isLocalStorageAvailable_eq Let_def split: sum.splits)
  qed
  from step returns show ?thesis by blast
qed

theorem C10_last_session_coupled_witness:
  "\<exists>ls1 ls2. saveSession demo_JSON ''2024-12-01'' (stored_session demo_session) empty_store = Inr ls1 \<and>
       getLastSession demo_JSON ls1 = Inr (Some (stored_session demo_session), ls2)"
proof -
  have a: "fst (isLocalStorageAvailable empty_store)"
    by (simp add: isLocalStorageAvailable_eq empty_store_def)
  have b: "\<not> rejects empty_store LAST_SESSION
             (JSON_stringify demo_JSON (SessionData_value (stored_session demo_session)))"
    by (simp add: empty_store_def)
  have f: "finite_session (stored_session demo_session)"
    by (simp add: finite_session_def stored_session_def)
  have c: "round_trips demo_JSON (SessionData_value (stored_session demo_session))"
    by (simp add: round_trips_def demo_values)
  have g: "getAllDailyStats demo_JSON empty_store = Inr (\<lparr>entries = [], proto = None\<rparr>, empty_store)"
    by (simp add: getAllDailyStats_def store_steps)
  have m: "''2024-12-01'' \<notin> set Object_prototype_members"
    by (simp add: Object_prototype_members_def)
  from C10_last_session_coupled [OF a b f c, of "''2024-12-01''"] g m show ?thesis
    by (metis stats_record.select_convs(2))
qed

subsection \<open>Timer state machine\<close>





lemma restore_invariant:
  "timestamp_iff_running snap \<Longrightarrow>
   timestamp_iff_running (internalState (restore currentTime now1 now2 (Some snap) h))"
  by (auto simp: restore_def timestamp_iff_running_def Let_def)

lemma actions_invariant:
  assumes "timestamp_iff_running (internalState h)"
  shows "timestamp_iff_running (internalState (fst (start now wall h)))"
    and "timestamp_iff_running (internalState (fst (pause now1 now2 h)))"
    and "timestamp_iff_running (internalState (fst (resume now h)))"
    and "timestamp_iff_running (internalState (fst (stop now wall sid h)))"
    and "timestamp_iff_running (internalState (fst (reset h)))"
    and "timestamp_iff_running (internalState (fst (setMode newMode h)))"
    and "timestamp_iff_running (internalState (fst (tick now1 now2 wall sid h)))"
  using assms
  by (auto simp: start_def pause_def resume_def stop_def reset_def setMode_def tick_def
      timestamp_iff_running_def DEFAULT_STATE_def Let_def)

text \<open>
  C3 (amended): the invariant holds in every hook state reachable by start, pause, resume,
  stop, reset, setMode, the autonomous transition, and the restoration of a snapshot that
  itself satisfies the invariant.
\<close>

theorem C3_invariant_reachable:
  "reachable timestamp_iff_running h \<Longrightarrow> timestamp_iff_running (internalState h)"
proof (induction rule: reachable.induct)
  case r_init
  show ?case by (simp add: useTimer_def DEFAULT_STATE_def timestamp_iff_running_def)
next
  case (r_restore h snap currentTime now1 now2)
  then show ?case by (simp add: restore_invariant)
qed (simp_all add: actions_invariant)

text \<open>
  C3 (as stated): the invariant holds after the restoration of any snapshot the validator
  accepts. This fails: the validator checks each field alone, so it accepts an idle snapshot
  that carries a start timestamp, and the mount effect restores it as it is.
\<close>

theorem C3_restore_counterexample:
  "isValidTimerSnapshot (TimerSnapshot_obj
      \<lparr>state = Idle, mode = Stopwatch, startTimestamp = Some 5, pausedElapsed = 0,
       pomodoroPhase = Work, pomodoroRemainingMs = 1500000\<rparr>)
   \<and> reachable (\<lambda>snap. isValidTimerSnapshot (TimerSnapshot_obj snap))
       (restore 0 0 0 (Some \<lparr>state = Idle, mode = Stopwatch, startTimestamp = Some 5, pausedElapsed = 0,
          pomodoroPhase = Work, pomodoroRemainingMs = 1500000\<rparr>) useTimer)
   \<and> \<not> timestamp_iff_running (internalState
       (restore 0 0 0 (Some \<lparr>state = Idle, mode = Stopwatch, startTimestamp = Some 5, pausedElapsed = 0,
          pomodoroPhase = Work, pomodoroRemainingMs = 1500000\<rparr>) useTimer))"
proof -
  have v: "isValidTimerSnapshot (TimerSnapshot_obj
      \<lparr>state = Idle, mode = Stopwatch, startTimestamp = Some 5, pausedElapsed = 0,
       pomodoroPhase = Work, pomodoroRemainingMs = 1500000\<rparr>)"
    by (simp add: isValidTimerSnapshot_def TimerSnapshot_obj_def TimerSnapshot_value_def
        stored_snapshot_def)
  from v have "reachable (\<lambda>snap. isValidTimerSnapshot (TimerSnapshot_obj snap))
       (restore 0 0 0 (Some \<lparr>state = Idle, mode = Stopwatch, startTimestamp = Some 5, pausedElapsed = 0,
          pomodoroPhase = Work, pomodoroRemainingMs = 1500000\<rparr>) useTimer)"
    by (intro r_restore r_init)
  with v show ?thesis
    by (simp add: restore_def timestamp_iff_running_def Let_def)
qed

theorem C3_invariant_reachable_witness:
  "timestamp_iff_running (internalState
     (fst (pause 90000 90000 (fst (start 5 1733040000000
        (restore 0 0 0 (Some demo_snapshot) useTimer))))))"
proof -
  have "timestamp_iff_running demo_snapshot"
    by (simp add: timestamp_iff_running_def demo_snapshot_def)
  then have "reachable timestamp_iff_running (restore 0 0 0 (Some demo_snapshot) useTimer)"
    by (intro r_restore r_init)
  then have "reachable timestamp_iff_running
     (fst (pause 90000 90000 (fst (start 5 1733040000000
        (restore 0 0 0 (Some demo_snapshot) useTimer)))))"
    by (intro r_pause r_start)
  then show ?thesis by (rule C3_invariant_reachable)
qed

subsection \<open>Ad waterfall\<close>

lemma loadsCalled_append: "loadsCalled (xs @ ys) = loadsCalled xs @ loadsCalled ys"
  by (induction xs rule: loadsCalled.induct) auto

lemma loadsCalled_callbacks: "loadsCalled (map (\<lambda>callback. Callback callback slotId st) cs) = []"
  by (induction cs) auto

lemma loadsCalled_notify: "loadsCalled (notifyStateChange orc slotId st) = []"
  by (simp add: notifyStateChange_def loadsCalled_callbacks)

lemma attempt_Skipped:
  "(attempt orc slotId p = Skipped) =
   (\<not> ((case adapters orc p of None \<Rightarrow> False | Some adapter \<Rightarrow> isAvailable adapter) \<and> permitted orc p))"
  by (cases p) (auto simp: attempt_def permitted_def split: option.splits)

lemma attempt_Invoked:
  "attempt orc slotId p = Invoked r \<Longrightarrow> (r = Resolved True) = fills orc slotId p"
  by (auto simp: attempt_def fills_def split: option.splits if_splits)

lemma waterfall_loads:
  "loadsCalled (snd (waterfall orc slotId ps)) =
     map (\<lambda>p. (p, slotId))
       (takeWhile (\<lambda>p. \<not> fills orc slotId p) (filter (\<lambda>p. attempt orc slotId p \<noteq> Skipped) ps) @
        take 1 (dropWhile (\<lambda>p. \<not> fills orc slotId p) (filter (\<lambda>p. attempt orc slotId p \<noteq> Skipped) ps)))"
proof (induction ps)
  case Nil
  show ?case by (simp add: failSlot_def Let_def loadsCalled_notify)
next
  case (Cons p ps)
  show ?case
  proof (cases "attempt orc slotId p")
    case Skipped
    with Cons show ?thesis by simp
  next
    case (Invoked r)
    with Cons attempt_Invoked [OF Invoked] show ?thesis
      by (auto simp: fillSlot_def Let_def loadsCalled_notify split: prod.splits)
  qed
qed

lemma waterfall_state:
  "slotStates (fst (waterfall orc slotId ps)) slotId =
     (case dropWhile (\<lambda>p. \<not> fills orc slotId p) (filter (\<lambda>p. attempt orc slotId p \<noteq> Skipped) ps) of
        [] \<Rightarrow> Some \<lparr>loaded = True, filled = False, currentProvider = None,
                     error = Some ''All providers failed to fill''\<rparr>
      | p # rest \<Rightarrow> Some \<lparr>loaded = True, filled = True, currentProvider = Some p, error = None\<rparr>)"
proof (induction ps)
  case Nil
  show ?case by (simp add: failSlot_def Let_def)
next
  case (Cons p ps)
  show ?case
  proof (cases "attempt orc slotId p")
    case Skipped
    with Cons show ?thesis by simp
  next
    case (Invoked r)
    with Cons attempt_Invoked [OF Invoked] show ?thesis
      by (auto simp: fillSlot_def Let_def split: prod.splits)
  qed
qed

lemma acceptSlot_keeps:
  assumes "acceptSlot w slotId orc = Some (orc1, ps, evs)"
  shows "adapters orc1 = adapters orc" and "adsenseActive orc1 = adsenseActive orc"
    and "config orc1 = config orc" and "loadsCalled evs = []"
    and "\<exists>slot. getSlotConfig orc slotId = Some slot \<and> ps = getAvailableProviders orc (providers slot)"
  using assms
  by (auto simp: acceptSlot_def Let_def getAvailableProviders_def loadsCalled_notify
      split: if_splits option.splits)

lemma attempted_candidates:
  assumes "adapters orc1 = adapters orc" and "adsenseActive orc1 = adsenseActive orc"
    and "config orc1 = config orc"
  shows "filter (\<lambda>p. attempt orc1 slotId p \<noteq> Skipped) (getAvailableProviders orc (providers slot))
         = filter (permitted orc) (candidates orc slot)"
  using assms
  by (auto simp: attempt_Skipped candidates_def getAvailableProviders_def permitted_def
      intro!: filter_cong)

lemma fills_cong: "adapters orc1 = adapters orc \<Longrightarrow> fills orc1 slotId = fills orc slotId"
  by (auto simp: fills_def fun_eq_iff)

lemma distinct_pair: "distinct xs \<Longrightarrow> distinct (map (\<lambda>p. (p, slotId)) xs)"
  by (simp add: distinct_map inj_on_def)

lemma first_filler:
  assumes "k < length xs" and "P (xs ! k)" and "\<forall>j<k. \<not> P (xs ! j)"
  shows "takeWhile (\<lambda>p. \<not> P p) xs = take k xs" and "dropWhile (\<lambda>p. \<not> P p) xs = drop k xs"
proof -
  show t: "takeWhile (\<lambda>p. \<not> P p) xs = take k xs"
    using assms by (intro takeWhile_eq_take_P_nth) auto
  show "dropWhile (\<lambda>p. \<not> P p) xs = drop k xs"
    using assms by (simp add: dropWhile_eq_drop t)
qed

lemma no_filler:
  assumes "\<forall>p\<in>set xs. \<not> P p"
  shows "takeWhile (\<lambda>p. \<not> P p) xs = xs" and "dropWhile (\<lambda>p. \<not> P p) xs = []"
  using assms by auto

lemma fillSlot_flag:
  "adsenseActive (fst (fillSlot orc slotId p)) = (adsenseActive orc \<or> p = Adsense)"
  by (simp add: fillSlot_def Let_def)

lemma fillSlot_loads: "loadsCalled (snd (fillSlot orc slotId p)) = []"
  by (simp add: fillSlot_def Let_def loadsCalled_notify)

lemma failSlot_flag: "adsenseActive (fst (failSlot orc slotId)) = adsenseActive orc"
  by (simp add: failSlot_def Let_def)

lemma failSlot_loads: "loadsCalled (snd (failSlot orc slotId)) = []"
  by (simp add: failSlot_def Let_def loadsCalled_notify)

lemma attempt_cong:
  "adapters orc1 = adapters orc \<Longrightarrow> adsenseActive orc1 = adsenseActive orc \<Longrightarrow>
   attempt orc1 slotId p = attempt orc slotId p"
  by (simp add: attempt_def split: option.splits)

lemma fillSlot_keeps:
  "adapters (fst (fillSlot orc slotId p)) = adapters orc"
  "slotStates (fst (fillSlot orc slotId p)) slotId =
     Some \<lparr>loaded = True, filled = True, currentProvider = Some p, error = None\<rparr>"
  by (simp_all add: fillSlot_def Let_def)

lemma failSlot_keeps:
  "adapters (fst (failSlot orc slotId)) = adapters orc"
  "slotStates (fst (failSlot orc slotId)) slotId =
     Some \<lparr>loaded = True, filled = False, currentProvider = None,
           error = Some ''All providers failed to fill''\<rparr>"
  by (simp_all add: failSlot_def Let_def)

text \<open>What is left of a call, as its task says: the loads still to come and the final state.\<close>

lemma waterfall_cong:
  assumes "adapters orc1 = adapters orc" and "adsenseActive orc1 = adsenseActive orc"
  shows "loadsCalled (snd (waterfall orc1 slotId ps)) = loadsCalled (snd (waterfall orc slotId ps))"
    and "slotStates (fst (waterfall orc1 slotId ps)) slotId =
         slotStates (fst (waterfall orc slotId ps)) slotId"
proof -
  have a: "(\<lambda>p. attempt orc1 slotId p \<noteq> Skipped) = (\<lambda>p. attempt orc slotId p \<noteq> Skipped)"
    using attempt_cong [OF assms] by (simp add: fun_eq_iff)
  show "loadsCalled (snd (waterfall orc1 slotId ps)) = loadsCalled (snd (waterfall orc slotId ps))"
    unfolding waterfall_loads a fills_cong [OF assms(1)] ..
  show "slotStates (fst (waterfall orc1 slotId ps)) slotId =
         slotStates (fst (waterfall orc slotId ps)) slotId"
    unfolding waterfall_state a fills_cong [OF assms(1)] ..
qed

lemma waterfall_Skipped:
  "attempt orc slotId p = Skipped \<Longrightarrow> waterfall orc slotId (p # ps) = waterfall orc slotId ps"
  by simp

lemma waterfall_Invoked:
  assumes "attempt orc slotId p = Invoked r"
  shows "loadsCalled (snd (waterfall orc slotId (p # ps))) =
           (p, slotId) # (if r = Resolved True then [] else loadsCalled (snd (waterfall orc slotId ps)))"
    and "slotStates (fst (waterfall orc slotId (p # ps))) slotId =
           (if r = Resolved True
            then Some \<lparr>loaded = True, filled = True, currentProvider = Some p, error = None\<rparr>
            else slotStates (fst (waterfall orc slotId ps)) slotId)"
  using assms
  by (auto simp: fillSlot_loads fillSlot_keeps split: prod.splits)
    (metis fillSlot_loads fillSlot_keeps(2) fst_conv snd_conv)+

lemma advance_other:
  assumes "i < length (tasks pg)" and "j \<noteq> i"
  shows "adapters (orch (advance j pg)) = adapters (orch pg)"
    and "length (tasks (advance j pg)) < length (tasks pg) \<Longrightarrow>
         (if j < i then i - 1 else i) < length (tasks (advance j pg)) \<and>
         tasks (advance j pg) ! (if j < i then i - 1 else i) = tasks pg ! i"
    and "\<not> length (tasks (advance j pg)) < length (tasks pg) \<Longrightarrow>
         i < length (tasks (advance j pg)) \<and> tasks (advance j pg) ! i = tasks pg ! i"
proof -
  have keep: "adapters (orch (advance j pg)) = adapters (orch pg) \<and>
      (tasks (advance j pg) = take j (tasks pg) @ drop (Suc j) (tasks pg) \<and> j < length (tasks pg) \<or>
       (\<exists>t. tasks (advance j pg) = (tasks pg)[j := t]))"
  proof (cases "j < length (tasks pg)")
    case False
    then have "advance j pg = pg" by (simp add: advance_def)
    then show ?thesis by (metis list_update_id)
  next
    case True
    then show ?thesis
      by (auto simp: advance_def Let_def fillSlot_def failSlot_def
          split: option.splits prod.splits list.splits iteration.splits)
  qed
  from keep show "adapters (orch (advance j pg)) = adapters (orch pg)" by simp
  show "(if j < i then i - 1 else i) < length (tasks (advance j pg)) \<and>
         tasks (advance j pg) ! (if j < i then i - 1 else i) = tasks pg ! i"
    if "length (tasks (advance j pg)) < length (tasks pg)"
  proof -
    from keep that have t: "tasks (advance j pg) = take j (tasks pg) @ drop (Suc j) (tasks pg)"
      and j: "j < length (tasks pg)" by auto
    show ?thesis
    proof (cases "j < i")
      case True
      then have "(take j (tasks pg) @ drop (Suc j) (tasks pg)) ! (i - 1) = tasks pg ! i"
        using assms j by (simp add: nth_append min_def)
      then show ?thesis using True assms j t by simp
    next
      case False
      with assms have "i < j" by simp
      then have "(take j (tasks pg) @ drop (Suc j) (tasks pg)) ! i = tasks pg ! i"
        using j by (simp add: nth_append)
      then show ?thesis using False \<open>i < j\<close> j t by simp
    qed
  qed
  show "i < length (tasks (advance j pg)) \<and> tasks (advance j pg) ! i = tasks pg ! i"
    if "\<not> length (tasks (advance j pg)) < length (tasks pg)"
  proof -
    from keep that obtain t where "tasks (advance j pg) = (tasks pg)[j := t]"
      by (auto simp: min_def split: if_splits)
    then show ?thesis using assms by simp
  qed
qed

lemma beginLoad_other:
  "adapters (orch (beginLoad w slotId pg)) = adapters (orch pg) \<and>
   (\<exists>more. tasks (beginLoad w slotId pg) = tasks pg @ more)"
proof (cases "acceptSlot w slotId (orch pg)")
  case None
  then show ?thesis by (simp add: beginLoad_def)
next
  case (Some a)
  obtain orc1 ps evs where a: "a = (orc1, ps, evs)" by (cases a)
  from acceptSlot_keeps(1) [OF Some [unfolded a]] show ?thesis
    by (simp add: beginLoad_def Some a)
qed

lemma perform_other:
  assumes "i < length (tasks pg)" and "\<And>j. a \<noteq> Advance j" and "\<And>adapter. a \<noteq> RegisterAdapter adapter"
  shows "adapters (orch (perform a pg)) = adapters (orch pg) \<and>
         i < length (tasks (perform a pg)) \<and> tasks (perform a pg) ! i = tasks pg ! i"
proof -
  have "adapters (orch (perform a pg)) = adapters (orch pg) \<and>
        (\<exists>more. tasks (perform a pg) = tasks pg @ more)"
  proof (cases a)
    case (TriggerLoad w slotId)
    with beginLoad_other [of w slotId pg] show ?thesis by simp
  next
    case (RegisterSlot w slotId)
    with beginLoad_other [of w slotId pg] show ?thesis by (auto split: option.splits)
  next
    case (Intersect w slotId)
    with beginLoad_other [of w slotId pg] show ?thesis by (auto simp: Let_def)
  next
    case (Advance j)
    with assms(2) [of j] show ?thesis by simp
  next
    case (RegisterAdapter adapter)
    with assms(3) [of adapter] show ?thesis by simp
  next
    case (OnSlotStateChange c)
    then show ?thesis by (simp add: onSlotStateChange_def)
  next
    case (UnregisterSlot slotId)
    then show ?thesis by (simp add: unregisterSlot_def)
  next
    case Destroy
    then show ?thesis by (simp add: destroy_def)
  qed
  then show ?thesis using assms(1) by (auto simp: nth_append)
qed

lemma rest_of_call_cong:
  assumes "adapters orc1 = adapters orc" and "adsenseActive orc1 = adsenseActive orc"
  shows "loadsCalled (snd (rest_of_call orc1 t)) = loadsCalled (snd (rest_of_call orc t))"
    and "slotStates (fst (rest_of_call orc1 t)) (task_slot t) =
         slotStates (fst (rest_of_call orc t)) (task_slot t)"
  using waterfall_cong [OF assms, of "task_slot t" "remaining t"]
  by (auto simp: rest_of_call_def fillSlot_loads fillSlot_keeps split: option.splits)

text \<open>One step of the call itself.\<close>

lemma advance_own:
  assumes i: "i < length (tasks pg)"
  shows "if length (tasks (advance i pg)) < length (tasks pg)
         then loadsCalled (drop (length (trace pg)) (trace (advance i pg))) =
                loadsCalled (snd (rest_of_call (orch pg) (tasks pg ! i))) \<and>
              slotStates (orch (advance i pg)) (task_slot (tasks pg ! i)) =
                slotStates (fst (rest_of_call (orch pg) (tasks pg ! i))) (task_slot (tasks pg ! i))
         else adapters (orch (advance i pg)) = adapters (orch pg) \<and>
              adsenseActive (orch (advance i pg)) = adsenseActive (orch pg) \<and>
              i < length (tasks (advance i pg)) \<and>
              task_slot (tasks (advance i pg) ! i) = task_slot (tasks pg ! i) \<and>
              loadsCalled (snd (rest_of_call (orch pg) (tasks pg ! i))) =
                loadsCalled (drop (length (trace pg)) (trace (advance i pg))) @
                loadsCalled (snd (rest_of_call (orch pg) (tasks (advance i pg) ! i))) \<and>
              slotStates (fst (rest_of_call (orch pg) (tasks pg ! i))) (task_slot (tasks pg ! i)) =
                slotStates (fst (rest_of_call (orch pg) (tasks (advance i pg) ! i)))
                  (task_slot (tasks pg ! i))"
proof -
  let ?t = "tasks pg ! i"
  have shorter: "length (tasks pg) - Suc 0 < length (tasks pg)"
    using i by simp
  show ?thesis
  proof (cases "awaiting ?t")
    case (Some a)
    obtain p r where a: "a = (p, r)" by (cases a)
    show ?thesis
    proof (cases "r = Resolved True")
      case True
      obtain orc1 evs where f: "fillSlot (orch pg) (task_slot ?t) p = (orc1, evs)"
        by (cases "fillSlot (orch pg) (task_slot ?t) p")
      have "advance i pg = pg\<lparr>orch := orc1, tasks := take i (tasks pg) @ drop (Suc i) (tasks pg),
                      trace := trace pg @ evs\<rparr>"
        using i Some a True f by (simp add: advance_def Let_def)
      then show ?thesis
        using i shorter Some a True f by (simp add: rest_of_call_def)
    next
      case False
      have "advance i pg = pg\<lparr>tasks := (tasks pg)[i := ?t\<lparr>awaiting := None\<rparr>]\<rparr>"
        using i Some a False by (simp add: advance_def Let_def)
      then show ?thesis
        using i Some a False by (simp add: rest_of_call_def)
    qed
  next
    case None
    show ?thesis
    proof (cases "remaining ?t")
      case Nil
      obtain orc1 evs where f: "failSlot (orch pg) (task_slot ?t) = (orc1, evs)"
        by (cases "failSlot (orch pg) (task_slot ?t)")
      have "advance i pg = pg\<lparr>orch := orc1, tasks := take i (tasks pg) @ drop (Suc i) (tasks pg),
                      trace := trace pg @ evs\<rparr>"
        using i None Nil f by (simp add: advance_def Let_def)
      then show ?thesis
        using i shorter None Nil f by (simp add: rest_of_call_def)
    next
      case (Cons p rest)
      show ?thesis
      proof (cases "attempt (orch pg) (task_slot ?t) p")
        case Skipped
        have "advance i pg = pg\<lparr>tasks := (tasks pg)[i := ?t\<lparr>remaining := rest\<rparr>]\<rparr>"
          using i None Cons Skipped by (simp add: advance_def Let_def)
        then show ?thesis
          using i None Cons Skipped by (simp add: rest_of_call_def)
      next
        case (Invoked r)
        have "advance i pg = pg\<lparr>tasks := (tasks pg)[i := ?t\<lparr>remaining := rest,
                                                     awaiting := Some (p, r)\<rparr>],
                          trace := trace pg @ [LoadCalled p (task_slot ?t)]\<rparr>"
          using i None Cons Invoked by (simp add: advance_def Let_def)
        then show ?thesis
          using i None Cons waterfall_Invoked [OF Invoked, of rest]
          by (simp add: rest_of_call_def fillSlot_loads fillSlot_keeps)
      qed
    qed
  qed
qed

lemma follow_call:
  assumes "i < length (tasks pg)" and "adapters (orch pg) = adapters orc0"
    and "adsenseActive orc0 = f" and "steady f i acts pg" and "follow i acts pg = Some (evs, orc)"
  shows "loadsCalled evs = loadsCalled (snd (rest_of_call orc0 (tasks pg ! i))) \<and>
         slotStates orc (task_slot (tasks pg ! i)) =
           slotStates (fst (rest_of_call orc0 (tasks pg ! i))) (task_slot (tasks pg ! i))"
  using assms
proof (induction acts arbitrary: pg i evs)
  case Nil
  then show ?case by simp
next
  case (Cons a acts)
  note i = Cons.prems(1) and ad = Cons.prems(2) and f = Cons.prems(3)
  let ?t = "tasks pg ! i"
  show ?case
  proof (cases "\<exists>j. a = Advance j")
    case False
    then have na: "\<And>j. a \<noteq> Advance j" by simp
    from Cons.prems(4) have nr: "\<And>adapter. a \<noteq> RegisterAdapter adapter"
      by (cases a) auto
    from Cons.prems(4) na have st: "steady f i acts (perform a pg)" by (cases a) auto
    from Cons.prems(5) na have fo: "follow i acts (perform a pg) = Some (evs, orc)"
      by (cases a) auto
    from perform_other [OF i na nr] have k: "adapters (orch (perform a pg)) = adapters (orch pg)"
      "i < length (tasks (perform a pg))" "tasks (perform a pg) ! i = ?t" by auto
    from Cons.IH [OF k(2) _ f st fo] k(1,3) ad show ?thesis by simp
  next
    case True
    then obtain j where a: "a = Advance j" ..
    let ?pg1 = "advance j pg"
    from Cons.prems(4) a have flag: "adsenseActive (orch pg) = f" by simp
    show ?thesis
    proof (cases "j = i")
      case False
      note other = advance_other [OF i False]
      show ?thesis
      proof (cases "length (tasks ?pg1) < length (tasks pg)")
        case True
        let ?i = "if j < i then i - 1 else i"
        from Cons.prems(4) a False True have st: "steady f ?i acts ?pg1"
          by (cases "j < i") (simp_all add: Let_def)
        from Cons.prems(5) a False True have fo: "follow ?i acts ?pg1 = Some (evs, orc)"
          by (cases "j < i") (simp_all add: Let_def)
        from other(2) [OF True] have k: "?i < length (tasks ?pg1)" "tasks ?pg1 ! ?i = ?t" by auto
        from Cons.IH [OF k(1) _ f st fo] other(1) ad k(2) show ?thesis by simp
      next
        case nf: False
        from Cons.prems(4) a False nf have st: "steady f i acts ?pg1"
          by (simp add: Let_def)
        from Cons.prems(5) a False nf have fo: "follow i acts ?pg1 = Some (evs, orc)"
          by (simp add: Let_def)
        from other(3) [OF nf] have k: "i < length (tasks ?pg1)" "tasks ?pg1 ! i = ?t" by auto
        from Cons.IH [OF k(1) _ f st fo] other(1) ad k(2) show ?thesis by simp
      qed
    next
      case True
      note own = advance_own [OF i]
      have same: "adsenseActive (orch pg) = adsenseActive orc0" using flag f by simp
      note cong = rest_of_call_cong [OF ad same]
      let ?evs1 = "drop (length (trace pg)) (trace (advance i pg))"
      show ?thesis
      proof (cases "length (tasks (advance i pg)) < length (tasks pg)")
        case fin: True
        from Cons.prems(5) a True fin have "evs = ?evs1" "orc = orch (advance i pg)"
          by (simp_all add: Let_def)
        with own fin cong [of ?t] show ?thesis by simp
      next
        case nf: False
        from Cons.prems(4) a True nf have st: "steady f i acts (advance i pg)"
          by (simp add: Let_def)
        from Cons.prems(5) a True nf obtain evs' where
          fo: "follow i acts (advance i pg) = Some (evs', orc)" and evs: "evs = ?evs1 @ evs'"
          by (auto simp: Let_def)
        from own nf have k: "adapters (orch (advance i pg)) = adapters (orch pg)"
          "i < length (tasks (advance i pg))"
          "task_slot (tasks (advance i pg) ! i) = task_slot ?t"
          "loadsCalled (snd (rest_of_call (orch pg) ?t)) =
             loadsCalled ?evs1 @ loadsCalled (snd (rest_of_call (orch pg) (tasks (advance i pg) ! i)))"
          "slotStates (fst (rest_of_call (orch pg) ?t)) (task_slot ?t) =
             slotStates (fst (rest_of_call (orch pg) (tasks (advance i pg) ! i))) (task_slot ?t)"
          by simp_all
        from Cons.IH [OF k(2) _ f st fo] k(1) ad
        have ih: "loadsCalled evs' = loadsCalled (snd (rest_of_call orc0 (tasks (advance i pg) ! i)))"
          "slotStates orc (task_slot ?t) =
             slotStates (fst (rest_of_call orc0 (tasks (advance i pg) ! i))) (task_slot ?t)"
          using k(3) by simp_all
        from cong [of ?t] cong [of "tasks (advance i pg) ! i"] k(3,4,5) ih evs
        show ?thesis by (simp add: loadsCalled_append)
      qed
    qed
  qed
qed

lemma waterfall_outcome:
  assumes acc: "acceptSlot w slotId orc = Some (orc1, ps, evs0)"
    and slot: "getSlotConfig orc slotId = Some slot"
    and cands: "cands = filter (permitted orc) (candidates orc slot)"
    and loads': "loads = loadsCalled (snd (waterfall orc1 slotId ps))"
    and st': "st = slotStates (fst (waterfall orc1 slotId ps)) slotId"
  shows "(k < length cands \<and> fills orc slotId (cands ! k) \<and> (\<forall>j<k. \<not> fills orc slotId (cands ! j)) \<longrightarrow>
            loads = map (\<lambda>p. (p, slotId)) (take (Suc k) cands) \<and>
            st = Some \<lparr>loaded = True, filled = True, currentProvider = Some (cands ! k), error = None\<rparr>)
       \<and> ((\<forall>p\<in>set cands. \<not> fills orc slotId p) \<longrightarrow>
            loads = map (\<lambda>p. (p, slotId)) cands \<and>
            st = Some \<lparr>loaded = True, filled = False, currentProvider = None,
                    error = Some ''All providers failed to fill''\<rparr>)
       \<and> (distinct (providers slot) \<longrightarrow> distinct loads)"
proof -
  note keep = acceptSlot_keeps [OF acc]
  from keep(5) slot have ps: "ps = getAvailableProviders orc (providers slot)" by auto
  let ?A = "filter (\<lambda>p. attempt orc1 slotId p \<noteq> Skipped) ps"
  have A: "?A = cands"
    unfolding ps cands by (rule attempted_candidates [OF keep(1-3)])
  have f: "fills orc1 slotId = fills orc slotId" by (rule fills_cong [OF keep(1)])
  have loads: "loads = map (\<lambda>p. (p, slotId))
       (takeWhile (\<lambda>p. \<not> fills orc slotId p) cands @ take 1 (dropWhile (\<lambda>p. \<not> fills orc slotId p) cands))"
    using waterfall_loads [of orc1 slotId ps] by (simp add: loads' A f)
  have st: "st =
     (case dropWhile (\<lambda>p. \<not> fills orc slotId p) cands of
        [] \<Rightarrow> Some \<lparr>loaded = True, filled = False, currentProvider = None,
                     error = Some ''All providers failed to fill''\<rparr>
      | p # rest \<Rightarrow> Some \<lparr>loaded = True, filled = True, currentProvider = Some p, error = None\<rparr>)"
    using waterfall_state [of orc1 slotId ps] by (simp add: st' A f)
  have one: "loads = map (\<lambda>p. (p, slotId)) (take (Suc k) cands) \<and>
            st = Some \<lparr>loaded = True, filled = True, currentProvider = Some (cands ! k), error = None\<rparr>"
    if "k < length cands" "fills orc slotId (cands ! k)" "\<forall>j<k. \<not> fills orc slotId (cands ! j)"
  proof -
    note ff = first_filler [of k cands "fills orc slotId", OF that]
    have d: "drop k cands = cands ! k # drop (Suc k) cands"
      using that(1) by (simp add: Cons_nth_drop_Suc)
    show ?thesis
      unfolding loads st ff using that(1) by (simp add: d take_Suc_conv_app_nth)
  qed
  have none: "loads = map (\<lambda>p. (p, slotId)) cands \<and>
            st = Some \<lparr>loaded = True, filled = False, currentProvider = None,
                    error = Some ''All providers failed to fill''\<rparr>"
    if "\<forall>p\<in>set cands. \<not> fills orc slotId p"
    unfolding loads st no_filler [of cands "fills orc slotId", OF that] by simp
  have dist: "distinct loads" if "distinct (providers slot)"
  proof -
    from that have dc: "distinct cands" by (simp add: cands candidates_def)
    have "distinct (takeWhile (\<lambda>p. \<not> fills orc slotId p) cands @ take 1 (dropWhile (\<lambda>p. \<not> fills orc slotId p) cands))"
    proof (cases "dropWhile (\<lambda>p. \<not> fills orc slotId p) cands")
      case Nil
      show ?thesis unfolding Nil using dc by simp
    next
      case (Cons a list)
      have "distinct (takeWhile (\<lambda>p. \<not> fills orc slotId p) cands @ dropWhile (\<lambda>p. \<not> fills orc slotId p) cands)"
        using dc by simp
      then show ?thesis unfolding Cons by auto
    qed
    then show ?thesis unfolding loads by (rule distinct_pair)
  qed
  from one none dist show ?thesis by blast
qed

text \<open>
  C7 (as stated): the candidates, taken to be the configured-enabled providers with a
  registered and available adapter, are attempted in order up to the first that fills, and
  none twice. This fails
  \<^item> once the AdSense flag is set: after AdSense has filled the top leaderboard, a call on
    the bottom slot has the candidates AdSense, Adsterra, Monetag, of which Adsterra (index
    1) is the first that would fill; yet only AdSense is attempted and the slot ends unfilled;
  \<^item> when the flag is set while the call awaits a load: the bottom slot's call invokes
    AdSense with the flag unset, the top leaderboard's call then fills by AdSense, and the
    bottom slot's call skips Adsterra and Monetag;
  \<^item> when an adapter is registered while the call awaits a load: Adsterra, replaced by an
    adapter that is not available, is skipped and Monetag is attempted instead;
  \<^item> when the slot's configured list names a provider twice: it is attempted twice.
\<close>

theorem C7_flag_skips_candidates_counterexample:
  "acceptSlot (Some 1280) AD_BOTTOM demo_after_adsense \<noteq> None
   \<and> getSlotConfig demo_after_adsense AD_BOTTOM = Some demo_bottom
   \<and> candidates demo_after_adsense demo_bottom = [Adsense, Adsterra, Monetag]
   \<and> \<not> fills demo_after_adsense AD_BOTTOM Adsense
   \<and> fills demo_after_adsense AD_BOTTOM Adsterra
   \<and> loadsCalled (snd (triggerLoad (Some 1280) AD_BOTTOM demo_after_adsense)) = [(Adsense, AD_BOTTOM)]
   \<and> slotStates (fst (triggerLoad (Some 1280) AD_BOTTOM demo_after_adsense)) AD_BOTTOM =
       Some \<lparr>loaded = True, filled = False, currentProvider = None,
             error = Some ''All providers failed to fill''\<rparr>
   \<and> length (tasks (beginLoad (Some 1280) AD_TOP_LEADERBOARD demo_page)) = 1
   \<and> \<not> adsenseActive (orch (beginLoad (Some 1280) AD_TOP_LEADERBOARD demo_page))
   \<and> acceptSlot (Some 1280) AD_BOTTOM (orch (beginLoad (Some 1280) AD_TOP_LEADERBOARD demo_page)) \<noteq> None
   \<and> getSlotConfig (orch (beginLoad (Some 1280) AD_TOP_LEADERBOARD demo_page)) AD_BOTTOM
       = Some demo_bottom
   \<and> filter (permitted (orch (beginLoad (Some 1280) AD_TOP_LEADERBOARD demo_page)))
         (candidates (orch (beginLoad (Some 1280) AD_TOP_LEADERBOARD demo_page)) demo_bottom)
       = [Adsense, Adsterra, Monetag]
   \<and> \<not> fills (orch (beginLoad (Some 1280) AD_TOP_LEADERBOARD demo_page)) AD_BOTTOM Adsense
   \<and> fills (orch (beginLoad (Some 1280) AD_TOP_LEADERBOARD demo_page)) AD_BOTTOM Adsterra
   \<and> map_option (\<lambda>(evs, orc). (loadsCalled evs, slotStates orc AD_BOTTOM))
         (follow 1 [Advance 1, Advance 0, Advance 0, Advance 0, Advance 0, Advance 0, Advance 0]
            (beginLoad (Some 1280) AD_BOTTOM (beginLoad (Some 1280) AD_TOP_LEADERBOARD demo_page)))
       = Some ([(Adsense, AD_BOTTOM)],
               Some \<lparr>loaded = True, filled = False, currentProvider = None,
                     error = Some ''All providers failed to fill''\<rparr>)
   \<and> \<not> steady False 1 [Advance 1, Advance 0, Advance 0, Advance 0, Advance 0, Advance 0, Advance 0]
         (beginLoad (Some 1280) AD_BOTTOM (beginLoad (Some 1280) AD_TOP_LEADERBOARD demo_page))
   \<and> \<not> adsenseActive (orch demo_page)
   \<and> acceptSlot (Some 1280) AD_BOTTOM (orch demo_page) \<noteq> None
   \<and> getSlotConfig (orch demo_page) AD_BOTTOM = Some demo_bottom
   \<and> filter (permitted (orch demo_page)) (candidates (orch demo_page) demo_bottom)
       = [Adsense, Adsterra, Monetag]
   \<and> \<not> fills (orch demo_page) AD_BOTTOM Adsense
   \<and> fills (orch demo_page) AD_BOTTOM Adsterra
   \<and> map_option (\<lambda>(evs, orc). (loadsCalled evs, slotStates orc AD_BOTTOM))
         (follow 0 [Advance 0, RegisterAdapter adsterra_gone, Advance 0, Advance 0, Advance 0,
                    Advance 0, Advance 0]
            (beginLoad (Some 1280) AD_BOTTOM demo_page))
       = Some ([(Adsense, AD_BOTTOM), (Monetag, AD_BOTTOM)],
               Some \<lparr>loaded = True, filled = False, currentProvider = None,
                     error = Some ''All providers failed to fill''\<rparr>)
   \<and> \<not> steady False 0 [Advance 0, RegisterAdapter adsterra_gone, Advance 0, Advance 0, Advance 0,
                          Advance 0, Advance 0]
         (beginLoad (Some 1280) AD_BOTTOM demo_page)
   \<and> acceptSlot (Some 1280) AD_BOTTOM demo_twice \<noteq> None
   \<and> loadsCalled (snd (triggerLoad (Some 1280) AD_BOTTOM demo_twice))
       = [(Adsense, AD_BOTTOM), (Adsense, AD_BOTTOM)]"
  by code_simp

text \<open>
  C7 (amended): within one \<open>triggerLoad\<close> call on an accepted slot, run without
  interruption or interleaved at its awaits with anything else the page does, provided
  that while the call is in flight the AdSense flag keeps the value it had at the call and
  no adapter is registered: the candidates are the configured-enabled providers with a
  registered and available adapter that the AdSense policy permits (every provider while
  the flag is unset, AdSense alone once it is set), all taken at the call. They are
  attempted in the slot's configured order: if candidate k is the first whose load resolves
  true, exactly candidates 0..k are attempted and the call leaves the slot loaded and filled
  by candidate k; if none fills, every candidate is attempted once and the call leaves the
  slot loaded, unfilled, with the error "All providers failed to fill". No provider is
  attempted twice when the slot's configured list names each provider once.
\<close>

theorem C7_waterfall_ordering:
  assumes accepted: "acceptSlot w slotId (orch pg) \<noteq> None"
    and slot: "getSlotConfig (orch pg) slotId = Some slot"
    and cands: "cands = filter (permitted (orch pg)) (candidates (orch pg) slot)"
    and call: "(loads = loadsCalled (snd (triggerLoad w slotId (orch pg))) \<and>
                orc = fst (triggerLoad w slotId (orch pg))) \<or>
               (\<exists>acts evs.
                  steady (adsenseActive (orch pg)) (length (tasks pg)) acts (beginLoad w slotId pg) \<and>
                  follow (length (tasks pg)) acts (beginLoad w slotId pg) = Some (evs, orc) \<and>
                  loads = loadsCalled evs)"
  shows "(k < length cands \<and> fills (orch pg) slotId (cands ! k) \<and>
            (\<forall>j<k. \<not> fills (orch pg) slotId (cands ! j)) \<longrightarrow>
            loads = map (\<lambda>p. (p, slotId)) (take (Suc k) cands) \<and>
            slotStates orc slotId =
              Some \<lparr>loaded = True, filled = True, currentProvider = Some (cands ! k), error = None\<rparr>)
       \<and> ((\<forall>p\<in>set cands. \<not> fills (orch pg) slotId p) \<longrightarrow>
            loads = map (\<lambda>p. (p, slotId)) cands \<and>
            slotStates orc slotId =
              Some \<lparr>loaded = True, filled = False, currentProvider = None,
                    error = Some ''All providers failed to fill''\<rparr>)
       \<and> (distinct (providers slot) \<longrightarrow> distinct loads)"
proof -
  from accepted obtain orc1 ps evs0 where acc: "acceptSlot w slotId (orch pg) = Some (orc1, ps, evs0)"
    by (cases "acceptSlot w slotId (orch pg)") auto
  note keep = acceptSlot_keeps [OF acc]
  have "loads = loadsCalled (snd (waterfall orc1 slotId ps)) \<and>
        slotStates orc slotId = slotStates (fst (waterfall orc1 slotId ps)) slotId"
    using call
  proof
    assume "loads = loadsCalled (snd (triggerLoad w slotId (orch pg))) \<and>
            orc = fst (triggerLoad w slotId (orch pg))"
    then show ?thesis
      using acc keep(4) by (auto simp: triggerLoad_def loadsCalled_append split: prod.splits)
  next
    assume "\<exists>acts evs.
       steady (adsenseActive (orch pg)) (length (tasks pg)) acts (beginLoad w slotId pg) \<and>
       follow (length (tasks pg)) acts (beginLoad w slotId pg) = Some (evs, orc) \<and>
       loads = loadsCalled evs"
    then obtain acts evs where
      st: "steady (adsenseActive (orch pg)) (length (tasks pg)) acts (beginLoad w slotId pg)"
      and fo: "follow (length (tasks pg)) acts (beginLoad w slotId pg) = Some (evs, orc)"
      and l: "loads = loadsCalled evs" by blast
    let ?t = "\<lparr>task_slot = slotId, remaining = ps, awaiting = None\<rparr>"
    let ?pg = "beginLoad w slotId pg"
    have b: "?pg = pg\<lparr>orch := orc1, tasks := tasks pg @ [?t], trace := trace pg @ evs0\<rparr>"
      by (simp add: beginLoad_def acc)
    have i: "length (tasks pg) < length (tasks ?pg)" and t: "tasks ?pg ! length (tasks pg) = ?t"
      and ad: "adapters (orch ?pg) = adapters orc1" by (simp_all add: b)
    from follow_call [OF i ad keep(2) st fo] show ?thesis
      by (simp add: t l rest_of_call_def)
  qed
  then show ?thesis
    using waterfall_outcome [OF acc slot cands, of loads "slotStates orc slotId" k] by blast
qed

theorem C7_waterfall_ordering_witness:
  "\<exists>evs orc.
     follow 1 [Advance 0, Advance 1, Advance 0, Advance 1, Advance 0, Advance 1, Advance 0, Advance 0]
       (beginLoad (Some 1280) AD_BOTTOM (beginLoad (Some 1280) AD_SIDE_RAIL_1 demo_page))
       = Some (evs, orc) \<and>
     loadsCalled evs = [(Adsense, AD_BOTTOM), (Adsterra, AD_BOTTOM)] \<and>
     slotStates orc AD_BOTTOM =
       Some \<lparr>loaded = True, filled = True, currentProvider = Some Adsterra, error = None\<rparr>"
proof -
  let ?pg = "beginLoad (Some 1280) AD_SIDE_RAIL_1 demo_page"
  let ?acts = "[Advance 0, Advance 1, Advance 0, Advance 1, Advance 0, Advance 1, Advance 0, Advance 0]"
  have a: "acceptSlot (Some 1280) AD_BOTTOM (orch ?pg) \<noteq> None" by code_simp
  have b: "getSlotConfig (orch ?pg) AD_BOTTOM = Some demo_bottom" by code_simp
  have c: "[Adsense, Adsterra, Monetag] = filter (permitted (orch ?pg)) (candidates (orch ?pg) demo_bottom)"
    by code_simp
  have d: "\<not> fills (orch ?pg) AD_BOTTOM Adsense" "fills (orch ?pg) AD_BOTTOM Adsterra"
    by code_simp+
  have n: "length (tasks ?pg) = 1" by code_simp
  have s: "steady (adsenseActive (orch ?pg)) (length (tasks ?pg)) ?acts
             (beginLoad (Some 1280) AD_BOTTOM ?pg)" by code_simp
  have "follow (length (tasks ?pg)) ?acts (beginLoad (Some 1280) AD_BOTTOM ?pg) \<noteq> None"
    by code_simp
  then obtain evs orc where
    f: "follow (length (tasks ?pg)) ?acts (beginLoad (Some 1280) AD_BOTTOM ?pg) = Some (evs, orc)"
    by auto
  have call: "(loadsCalled evs = loadsCalled (snd (triggerLoad (Some 1280) AD_BOTTOM (orch ?pg))) \<and>
                orc = fst (triggerLoad (Some 1280) AD_BOTTOM (orch ?pg))) \<or>
               (\<exists>acts evs'.
                  steady (adsenseActive (orch ?pg)) (length (tasks ?pg)) acts
                    (beginLoad (Some 1280) AD_BOTTOM ?pg) \<and>
                  follow (length (tasks ?pg)) acts (beginLoad (Some 1280) AD_BOTTOM ?pg) = Some (evs', orc) \<and>
                  loadsCalled evs = loadsCalled evs')"
    using s f by blast
  from C7_waterfall_ordering [OF a b c call, of 1] d f n show ?thesis by simp
qed


text \<open>
  The two readings of the provider loop agree: a call that nothing interrupts, advanced
  iteration by iteration, ends as \<open>waterfall\<close> (and so \<open>triggerLoad\<close>) says.
\<close>

lemma advance_runs_waterfall:
  "tasks pg = [\<lparr>task_slot = slotId, remaining = ps, awaiting = None\<rparr>] \<Longrightarrow>
   \<exists>n. (advance 0 ^^ n) pg =
     pg\<lparr>orch := fst (waterfall (orch pg) slotId ps), tasks := [],
        trace := trace pg @ snd (waterfall (orch pg) slotId ps)\<rparr>"
proof (induction ps arbitrary: pg)
  case Nil
  then have "(advance 0 ^^ 1) pg =
     pg\<lparr>orch := fst (waterfall (orch pg) slotId []), tasks := [],
        trace := trace pg @ snd (waterfall (orch pg) slotId [])\<rparr>"
    by (simp add: advance_def Let_def split: prod.splits)
  then show ?case by blast
next
  case (Cons p ps)
  show ?case
  proof (cases "attempt (orch pg) slotId p")
    case Skipped
    let ?pg1 = "pg\<lparr>tasks := [\<lparr>task_slot = slotId, remaining = ps, awaiting = None\<rparr>]\<rparr>"
    have step: "advance 0 pg = ?pg1"
      using Cons.prems Skipped by (simp add: advance_def Let_def)
    from Cons.IH [of ?pg1] obtain n where
      "(advance 0 ^^ n) ?pg1 =
         ?pg1\<lparr>orch := fst (waterfall (orch ?pg1) slotId ps), tasks := [],
            trace := trace ?pg1 @ snd (waterfall (orch ?pg1) slotId ps)\<rparr>"
      by auto
    then have "(advance 0 ^^ Suc n) pg =
       pg\<lparr>orch := fst (waterfall (orch pg) slotId (p # ps)), tasks := [],
          trace := trace pg @ snd (waterfall (orch pg) slotId (p # ps))\<rparr>"
      using Skipped by (simp add: funpow_swap1 step)
    then show ?thesis by blast
  next
    case (Invoked r)
    let ?pg1 = "pg\<lparr>tasks := [\<lparr>task_slot = slotId, remaining = ps, awaiting = Some (p, r)\<rparr>],
                  trace := trace pg @ [LoadCalled p slotId]\<rparr>"
    have step1: "advance 0 pg = ?pg1"
      using Cons.prems Invoked by (simp add: advance_def Let_def)
    show ?thesis
    proof (cases "r = Resolved True")
      case True
      have "advance 0 ?pg1 =
        pg\<lparr>orch := fst (waterfall (orch pg) slotId (p # ps)), tasks := [],
          trace := trace pg @ snd (waterfall (orch pg) slotId (p # ps))\<rparr>"
        using Invoked True by (simp add: advance_def Let_def split: prod.splits)
      then have "(advance 0 ^^ 2) pg =
        pg\<lparr>orch := fst (waterfall (orch pg) slotId (p # ps)), tasks := [],
          trace := trace pg @ snd (waterfall (orch pg) slotId (p # ps))\<rparr>"
        by (simp add: numeral_2_eq_2 step1)
      then show ?thesis by blast
    next
      case False
      let ?pg2 = "pg\<lparr>tasks := [\<lparr>task_slot = slotId, remaining = ps, awaiting = None\<rparr>],
                  trace := trace pg @ [LoadCalled p slotId]\<rparr>"
      have step2: "advance 0 ?pg1 = ?pg2"
        using False by (simp add: advance_def Let_def)
      from Cons.IH [of ?pg2] obtain n where
        "(advance 0 ^^ n) ?pg2 =
           ?pg2\<lparr>orch := fst (waterfall (orch ?pg2) slotId ps), tasks := [],
              trace := trace ?pg2 @ snd (waterfall (orch ?pg2) slotId ps)\<rparr>"
        by auto
      then have "(advance 0 ^^ Suc (Suc n)) pg =
         pg\<lparr>orch := fst (waterfall (orch pg) slotId (p # ps)), tasks := [],
            trace := trace pg @ snd (waterfall (orch pg) slotId (p # ps))\<rparr>"
        using Invoked False by (simp add: funpow_swap1 step1 step2 split: prod.splits)
      then show ?thesis by blast
    qed
  qed
qed

lemma triggerLoad_as_steps:
  assumes "tasks pg = []"
  shows "\<exists>n. (advance 0 ^^ n) (beginLoad w slotId pg) =
     pg\<lparr>orch := fst (triggerLoad w slotId (orch pg)), tasks := [],
        trace := trace pg @ snd (triggerLoad w slotId (orch pg))\<rparr>"
proof (cases "acceptSlot w slotId (orch pg)")
  case None
  with assms have "(advance 0 ^^ 0) (beginLoad w slotId pg) =
     pg\<lparr>orch := fst (triggerLoad w slotId (orch pg)), tasks := [],
        trace := trace pg @ snd (triggerLoad w slotId (orch pg))\<rparr>"
    by (simp add: beginLoad_def triggerLoad_def)
  then show ?thesis by blast
next
  case (Some a)
  obtain orc1 ps evs where a: "a = (orc1, ps, evs)" by (cases a)
  let ?pg1 = "pg\<lparr>orch := orc1,
                 tasks := [\<lparr>task_slot = slotId, remaining = ps, awaiting = None\<rparr>],
                 trace := trace pg @ evs\<rparr>"
  have b: "beginLoad w slotId pg = ?pg1"
    using assms Some a by (simp add: beginLoad_def)
  from advance_runs_waterfall [of ?pg1 slotId ps] obtain n where
    "(advance 0 ^^ n) ?pg1 =
       ?pg1\<lparr>orch := fst (waterfall (orch ?pg1) slotId ps), tasks := [],
          trace := trace ?pg1 @ snd (waterfall (orch ?pg1) slotId ps)\<rparr>"
    by auto
  then have "(advance 0 ^^ n) (beginLoad w slotId pg) =
     pg\<lparr>orch := fst (triggerLoad w slotId (orch pg)), tasks := [],
        trace := trace pg @ snd (triggerLoad w slotId (orch pg))\<rparr>"
    by (simp add: b triggerLoad_def Some a split: prod.splits)
  then show ?thesis by blast
qed

lemma attempt_under_flag:
  "adsenseActive orc \<Longrightarrow> attempt orc slotId p = Invoked r \<Longrightarrow> p = Adsense"
  by (cases p) (auto simp: attempt_def split: option.splits if_splits)

lemma beginLoad_step:
  "adsenseActive (orch (beginLoad w slotId pg)) = adsenseActive (orch pg) \<and>
   (\<exists>evs. trace (beginLoad w slotId pg) = trace pg @ evs \<and> loadsCalled evs = [])"
proof (cases "acceptSlot w slotId (orch pg)")
  case None
  then show ?thesis by (simp add: beginLoad_def)
next
  case (Some a)
  obtain orc1 ps evs where a: "a = (orc1, ps, evs)" by (cases a)
  from acceptSlot_keeps(2,4) [OF Some [unfolded a]] show ?thesis
    by (simp add: beginLoad_def Some a)
qed

lemma advance_step:
  "(adsenseActive (orch pg) \<longrightarrow> adsenseActive (orch (advance i pg))) \<and>
   (\<exists>evs. trace (advance i pg) = trace pg @ evs \<and>
      (adsenseActive (orch pg) \<longrightarrow> (\<forall>e\<in>set (loadsCalled evs). fst e = Adsense)))"
proof (cases "i < length (tasks pg)")
  case False
  then show ?thesis by (simp add: advance_def)
next
  case True
  let ?t = "tasks pg ! i"
  show ?thesis
  proof (cases "awaiting ?t")
    case (Some a)
    obtain p r where a: "a = (p, r)" by (cases a)
    show ?thesis
      using True Some a fillSlot_flag [of "orch pg" "task_slot ?t" p]
        fillSlot_loads [of "orch pg" "task_slot ?t" p]
      by (auto simp: advance_def Let_def split: prod.splits)
  next
    case None
    show ?thesis
    proof (cases "remaining ?t")
      case Nil
      show ?thesis
        using True None Nil failSlot_flag [of "orch pg" "task_slot ?t"]
          failSlot_loads [of "orch pg" "task_slot ?t"]
        by (auto simp: advance_def Let_def split: prod.splits)
    next
      case (Cons p rest)
      show ?thesis
      proof (cases "attempt (orch pg) (task_slot ?t) p")
        case Skipped
        with True None Cons show ?thesis by (simp add: advance_def Let_def)
      next
        case (Invoked r)
        with True None Cons attempt_under_flag [of "orch pg" "task_slot ?t" p r]
        show ?thesis by (auto simp: advance_def Let_def)
      qed
    qed
  qed
qed

lemma perform_step:
  "(adsenseActive (orch pg) \<longrightarrow> adsenseActive (orch (perform a pg))) \<and>
   (\<exists>evs. trace (perform a pg) = trace pg @ evs \<and>
      (adsenseActive (orch pg) \<longrightarrow> (\<forall>e\<in>set (loadsCalled evs). fst e = Adsense)))"
proof (cases a)
  case (TriggerLoad w slotId)
  with beginLoad_step [of w slotId pg] show ?thesis by auto
next
  case (RegisterSlot w slotId)
  with beginLoad_step [of w slotId pg] show ?thesis by (auto split: option.splits)
next
  case (Intersect w slotId)
  with beginLoad_step [of w slotId pg] show ?thesis by (auto simp: Let_def)
next
  case (Advance i)
  with advance_step [of pg i] show ?thesis by simp
next
  case (RegisterAdapter adapter)
  then show ?thesis by (simp add: registerAdapter_def)
next
  case (OnSlotStateChange c)
  then show ?thesis by (simp add: onSlotStateChange_def)
next
  case (UnregisterSlot slotId)
  then show ?thesis by (simp add: unregisterSlot_def)
next
  case Destroy
  then show ?thesis by (simp add: destroy_def)
qed

lemma run_steps:
  "adsenseActive (orch pg) \<Longrightarrow>
   adsenseActive (orch (fold perform acts pg)) \<and>
   (\<exists>evs. trace (fold perform acts pg) = trace pg @ evs \<and>
      (\<forall>e\<in>set (loadsCalled evs). fst e = Adsense))"
proof (induction acts arbitrary: pg)
  case Nil
  then show ?case by simp
next
  case (Cons a acts)
  from perform_step [of pg a] Cons.prems obtain evs1 where
    f: "adsenseActive (orch (perform a pg))" and
    t: "trace (perform a pg) = trace pg @ evs1" and
    l: "\<forall>e\<in>set (loadsCalled evs1). fst e = Adsense" by auto
  from Cons.IH [OF f] obtain evs2 where
    f2: "adsenseActive (orch (fold perform acts (perform a pg)))" and
    t2: "trace (fold perform acts (perform a pg)) = trace (perform a pg) @ evs2" and
    l2: "\<forall>e\<in>set (loadsCalled evs2). fst e = Adsense" by auto
  have "trace (fold perform (a # acts) pg) = trace pg @ (evs1 @ evs2)"
    using t t2 by simp
  moreover have "\<forall>e\<in>set (loadsCalled (evs1 @ evs2)). fst e = Adsense"
    using l l2 by (auto simp: loadsCalled_append)
  ultimately show ?case using f2 by (intro conjI exI [of _ "evs1 @ evs2"]) simp_all
qed

lemma waterfall_under_flag:
  "adsenseActive orc \<Longrightarrow>
   adsenseActive (fst (waterfall orc slotId ps)) \<and>
   (\<forall>e\<in>set (loadsCalled (snd (waterfall orc slotId ps))). fst e = Adsense)"
proof (induction ps)
  case Nil
  then show ?case by (simp add: failSlot_flag failSlot_loads)
next
  case (Cons p ps)
  show ?case
  proof (cases "attempt orc slotId p")
    case Skipped
    with Cons show ?thesis by simp
  next
    case (Invoked r)
    with Cons attempt_under_flag [OF Cons.prems Invoked]
      fillSlot_flag [of orc slotId p] fillSlot_loads [of orc slotId p]
    show ?thesis by (auto split: prod.splits)
  qed
qed

lemma triggerLoad_under_flag:
  assumes "adsenseActive orc"
  shows "adsenseActive (fst (triggerLoad w slotId orc)) \<and>
     (\<forall>e\<in>set (loadsCalled (snd (triggerLoad w slotId orc))). fst e = Adsense)"
proof (cases "acceptSlot w slotId orc")
  case None
  with assms show ?thesis by (simp add: triggerLoad_def)
next
  case (Some a)
  obtain orc1 ps evs where a: "a = (orc1, ps, evs)" by (cases a)
  note keep = acceptSlot_keeps [OF Some [unfolded a]]
  from assms keep(2) have "adsenseActive orc1" by simp
  from waterfall_under_flag [OF this, of slotId ps] keep(4) show ?thesis
    by (auto simp: triggerLoad_def Some a loadsCalled_append split: prod.splits)
qed

lemma adsense_fill_sets_flag: "adsenseActive (fst (fillSlot orc slotId Adsense))"
  by (simp add: fillSlot_flag)

text \<open>
  C8: the AdSense-active flag is set when a \<open>triggerLoad\<close> fills a slot by AdSense
  (\<open>adsense_fill_sets_flag\<close>). From any page on which it is set, whatever is done next
  (\<open>triggerLoad\<close> calls on any slot, interleaved at their awaits or not, registrations,
  \<open>unregisterSlot\<close>, \<open>destroy\<close>), the flag stays set and every \<open>load\<close> that is invoked is
  AdSense's.
\<close>

theorem C8_adsense_exclusivity:
  assumes "adsenseActive (orch pg)"
  shows "adsenseActive (orch (fold perform acts pg)) \<and>
     (\<exists>evs. trace (fold perform acts pg) = trace pg @ evs \<and>
        (\<forall>e\<in>set (loadsCalled evs). fst e = Adsense)) \<and>
     adsenseActive (fst (triggerLoad w slotId (orch pg))) \<and>
     (\<forall>e\<in>set (loadsCalled (snd (triggerLoad w slotId (orch pg)))). fst e = Adsense)"
  using run_steps [OF assms, of acts] triggerLoad_under_flag [OF assms, of w slotId] by blast

theorem C8_adsense_exclusivity_witness:
  "adsenseActive (orch (fold perform
      [TriggerLoad (Some 1280) AD_BOTTOM, Advance 0, Advance 0, Destroy, Advance 0, Advance 0,
       UnregisterSlot AD_BOTTOM, Advance 0, TriggerLoad (Some 1280) AD_SIDE_RAIL_1, Advance 0]
      \<lparr>orch = demo_after_adsense, tasks = [], trace = []\<rparr>))
   \<and> loadsCalled (trace (fold perform
      [TriggerLoad (Some 1280) AD_BOTTOM, Advance 0, Advance 0, Destroy, Advance 0, Advance 0,
       UnregisterSlot AD_BOTTOM, Advance 0, TriggerLoad (Some 1280) AD_SIDE_RAIL_1, Advance 0]
      \<lparr>orch = demo_after_adsense, tasks = [], trace = []\<rparr>))
     = [(Adsense, AD_BOTTOM), (Adsense, AD_SIDE_RAIL_1)]"
proof -
  have f: "adsenseActive (orch \<lparr>orch = demo_after_adsense, tasks = [], trace = []\<rparr>)"
    by code_simp
  from C8_adsense_exclusivity [OF f] have "adsenseActive (orch (fold perform
      [TriggerLoad (Some 1280) AD_BOTTOM, Advance 0, Advance 0, Destroy, Advance 0, Advance 0,
       UnregisterSlot AD_BOTTOM, Advance 0, TriggerLoad (Some 1280) AD_SIDE_RAIL_1, Advance 0]
      \<lparr>orch = demo_after_adsense, tasks = [], trace = []\<rparr>))"
    by blast
  moreover have "loadsCalled (trace (fold perform
      [TriggerLoad (Some 1280) AD_BOTTOM, Advance 0, Advance 0, Destroy, Advance 0, Advance 0,
       UnregisterSlot AD_BOTTOM, Advance 0, TriggerLoad (Some 1280) AD_SIDE_RAIL_1, Advance 0]
      \<lparr>orch = demo_after_adsense, tasks = [], trace = []\<rparr>))
     = [(Adsense, AD_BOTTOM), (Adsense, AD_SIDE_RAIL_1)]"
    by code_simp
  ultimately show ?thesis by simp
qed

end
